theory Spec2Isabelle
  imports Complex_Main "HOL-Library.Log_Nat" "HOL-Library.Sublist"
begin

section \<open>JavaScript numbers\<close>

text \<open>
  A JavaScript number is an IEEE 754 binary64 value. A finite value is modelled by the
  rational number it denotes. Every arithmetic operator computes the exact rational result
  and rounds it to the nearest binary64 value, ties to the even significand (\<open>fl\<close>): the
  significand has 53 bits, the spacing below \<open>2 ^ -1022\<close> is that of the subnormal numbers,
  \<open>2 ^ -1074\<close>, and a rounded result of magnitude \<open>2 ^ 1024\<close> or more is an infinity
  (\<open>round64\<close>). The sign of a zero is not represented: it can change only the sign of an
  infinite quotient, and every divisor of this program is a positive constant or a total
  reported by the operating system.
\<close>

definition round_even :: "rat \<Rightarrow> int" where
  "round_even y =
     (let f = \<lfloor>y\<rfloor>; d = y - of_int f
      in if d < 1 / 2 then f else if 1 / 2 < d then f + 1 else if even f then f else f + 1)"

text \<open>For \<open>0 < x\<close>, \<open>ilog2 x\<close> is the exponent \<open>e\<close> with \<open>2 ^ e \<le> x < 2 ^ (e + 1)\<close>.\<close>

definition ilog2 :: "rat \<Rightarrow> int" where
  "ilog2 x = (if 1 \<le> x then bitlen \<lfloor>x\<rfloor> - 1 else - bitlen (\<lceil>1 / x\<rceil> - 1))"

definition unit_exp :: "rat \<Rightarrow> int" where
  "unit_exp x = max (ilog2 \<bar>x\<bar> - 52) (- 1074)"

definition fl :: "rat \<Rightarrow> rat" where
  "fl x =
     (if x = 0 then 0
      else sgn x * of_int (round_even (\<bar>x\<bar> / 2 powi unit_exp x)) * 2 powi unit_exp x)"

datatype jsnum = Fin rat | NaN | PInf | NInf

definition round64 :: "rat \<Rightarrow> jsnum" where
  "round64 x =
     (let r = fl x
      in if 2 ^ 1024 \<le> r then PInf else if r \<le> - (2 ^ 1024) then NInf else Fin r)"

fun js_add :: "jsnum \<Rightarrow> jsnum \<Rightarrow> jsnum" where
  "js_add (Fin x) (Fin y) = round64 (x + y)"
| "js_add NaN _ = NaN"
| "js_add _ NaN = NaN"
| "js_add PInf NInf = NaN"
| "js_add NInf PInf = NaN"
| "js_add PInf _ = PInf"
| "js_add _ PInf = PInf"
| "js_add NInf _ = NInf"
| "js_add _ NInf = NInf"

fun js_sub :: "jsnum \<Rightarrow> jsnum \<Rightarrow> jsnum" where
  "js_sub (Fin x) (Fin y) = round64 (x - y)"
| "js_sub NaN _ = NaN"
| "js_sub _ NaN = NaN"
| "js_sub PInf PInf = NaN"
| "js_sub NInf NInf = NaN"
| "js_sub PInf _ = PInf"
| "js_sub _ NInf = PInf"
| "js_sub NInf _ = NInf"
| "js_sub _ PInf = NInf"

fun js_mul :: "jsnum \<Rightarrow> jsnum \<Rightarrow> jsnum" where
  "js_mul (Fin x) (Fin y) = round64 (x * y)"
| "js_mul NaN _ = NaN"
| "js_mul _ NaN = NaN"
| "js_mul PInf (Fin y) = (if y = 0 then NaN else if 0 < y then PInf else NInf)"
| "js_mul NInf (Fin y) = (if y = 0 then NaN else if 0 < y then NInf else PInf)"
| "js_mul (Fin x) PInf = (if x = 0 then NaN else if 0 < x then PInf else NInf)"
| "js_mul (Fin x) NInf = (if x = 0 then NaN else if 0 < x then NInf else PInf)"
| "js_mul PInf PInf = PInf"
| "js_mul NInf NInf = PInf"
| "js_mul PInf NInf = NInf"
| "js_mul NInf PInf = NInf"

fun js_div :: "jsnum \<Rightarrow> jsnum \<Rightarrow> jsnum" where
  "js_div (Fin x) (Fin y) =
     (if y = 0 then (if x = 0 then NaN else if 0 < x then PInf else NInf)
      else round64 (x / y))"
| "js_div NaN _ = NaN"
| "js_div _ NaN = NaN"
| "js_div (Fin x) PInf = Fin 0"
| "js_div (Fin x) NInf = Fin 0"
| "js_div PInf (Fin y) = (if 0 \<le> y then PInf else NInf)"
| "js_div NInf (Fin y) = (if 0 \<le> y then NInf else PInf)"
| "js_div PInf PInf = NaN"
| "js_div PInf NInf = NaN"
| "js_div NInf PInf = NaN"
| "js_div NInf NInf = NaN"

text \<open>
  The remainder operator \<open>%\<close>: the dividend minus the divisor times the quotient truncated
  towards zero. IEEE 754 makes this result exact, so no rounding follows.
\<close>

definition js_truncate :: "rat \<Rightarrow> int" where
  "js_truncate q = (if 0 \<le> q then \<lfloor>q\<rfloor> else \<lceil>q\<rceil>)"

fun js_mod :: "jsnum \<Rightarrow> jsnum \<Rightarrow> jsnum" where
  "js_mod (Fin x) (Fin y) = (if y = 0 then NaN else Fin (x - y * of_int (js_truncate (x / y))))"
| "js_mod (Fin x) PInf = Fin x"
| "js_mod (Fin x) NInf = Fin x"
| "js_mod _ _ = NaN"

text \<open>The comparison \<open>>=\<close>, false whenever an operand is \<open>NaN\<close>.\<close>

fun js_ge :: "jsnum \<Rightarrow> jsnum \<Rightarrow> bool" where
  "js_ge (Fin x) (Fin y) = (y \<le> x)"
| "js_ge NaN _ = False"
| "js_ge _ NaN = False"
| "js_ge PInf _ = True"
| "js_ge _ NInf = True"
| "js_ge _ _ = False"

text \<open>\<open>Math.floor\<close>.\<close>

fun js_floor :: "jsnum \<Rightarrow> jsnum" where
  "js_floor (Fin x) = Fin (of_int \<lfloor>x\<rfloor>)"
| "js_floor v = v"

section \<open>Numbers as text\<close>

definition digit_char :: "nat \<Rightarrow> char" where
  "digit_char d = ''0123456789'' ! d"

function nat_digits :: "nat \<Rightarrow> string" where
  "nat_digits n =
     (if n < 10 then [digit_char n] else nat_digits (n div 10) @ [digit_char (n mod 10)])"
  by pat_completeness auto
termination
  by (relation "measure (\<lambda>n. n)") auto

declare nat_digits.simps [simp del]

text \<open>
  \<open>Number.prototype.toFixed(f)\<close> on a finite \<open>x\<close>: take the integer \<open>n\<close> for which
  \<open>n / 10 ^ f\<close> is closest to \<open>\<bar>x\<bar>\<close>, the larger one of two; write its digits, padded with
  zeros to \<open>f + 1\<close> digits; put the point before the last \<open>f\<close> digits; put the sign in
  front. The operation works on the exact value of the number. This is JavaScript's result
  for \<open>\<bar>x\<bar> < 10 ^ 21\<close> only: from \<open>10 ^ 21\<close> on JavaScript prints exponent notation, and
  the function below does not. Every theorem of this file that reads \<open>toFixed\<close> keeps its
  argument below \<open>2 ^ 53\<close> in magnitude.
\<close>

definition round_half_up :: "rat \<Rightarrow> nat" where
  "round_half_up y = nat \<lfloor>y + 1 / 2\<rfloor>"

definition fixed_digits :: "nat \<Rightarrow> nat \<Rightarrow> string" where
  "fixed_digits f n =
     (let m = nat_digits n
      in if f = 0 then m
         else let m' = (if length m \<le> f then replicate (f + 1 - length m) (CHR ''0'') @ m else m);
                  k = length m'
              in take (k - f) m' @ ''.'' @ drop (k - f) m')"

fun toFixed :: "jsnum \<Rightarrow> nat \<Rightarrow> string" where
  "toFixed (Fin x) f =
     (if x < 0 then ''-'' else []) @ fixed_digits f (round_half_up (\<bar>x\<bar> * 10 ^ f))"
| "toFixed NaN f = ''NaN''"
| "toFixed PInf f = ''Infinity''"
| "toFixed NInf f = ''-Infinity''"

text \<open>
  The conversion of a number to a string inside a template literal. The result is
  JavaScript's for \<open>NaN\<close>, for the infinities, and for a whole number of magnitude at most
  \<open>2 ^ 53\<close>, whose decimal digits it writes. It is not JavaScript's for any other finite
  number: the function below drops a fraction, where JavaScript prints the shortest
  decimal that reads back as the same number, and it writes all digits of a large number,
  where JavaScript rounds the digits or prints exponent notation. Every theorem of this
  file that reads \<open>js_toString\<close> applies it to a whole number below \<open>2 ^ 53\<close>.
\<close>

fun js_toString :: "jsnum \<Rightarrow> string" where
  "js_toString (Fin x) = (if x < 0 then ''-'' else []) @ nat_digits (nat \<lfloor>\<bar>x\<bar>\<rfloor>)"
| "js_toString NaN = ''NaN''"
| "js_toString PInf = ''Infinity''"
| "js_toString NInf = ''-Infinity''"

subsection \<open>Reading a printed number\<close>

text \<open>
  The value that a reader of the output takes from a decimal numeral such as \<open>12.50\<close>,
  and from a percentage such as \<open>12.50%\<close>. Text that is not a numeral (\<open>NaN\<close>, \<open>N/A\<close>)
  has no value.
\<close>

definition is_digit :: "char \<Rightarrow> bool" where
  "is_digit c = (c \<in> set ''0123456789'')"

definition digit_nat :: "char \<Rightarrow> nat" where
  "digit_nat c = of_char c - 48"

definition dval :: "string \<Rightarrow> nat" where
  "dval s = fold (\<lambda>c a. 10 * a + digit_nat c) s 0"

definition all_digits :: "string \<Rightarrow> bool" where
  "all_digits s = (s \<noteq> [] \<and> list_all is_digit s)"

definition unsigned_value :: "string \<Rightarrow> rat option" where
  "unsigned_value s =
     (let a = takeWhile (\<lambda>c. c \<noteq> CHR ''.'') s; r = dropWhile (\<lambda>c. c \<noteq> CHR ''.'') s
      in if r = [] then (if all_digits a then Some (of_nat (dval a)) else None)
         else let b = tl r
              in if all_digits a \<and> all_digits b
                 then Some (of_nat (dval a) + of_nat (dval b) / 10 ^ length b) else None)"

definition decimal_value :: "string \<Rightarrow> rat option" where
  "decimal_value s =
     (if s \<noteq> [] \<and> hd s = CHR ''-'' then map_option uminus (unsigned_value (tl s))
      else unsigned_value s)"

definition pct_value :: "string \<Rightarrow> rat option" where
  "pct_value s = (if s \<noteq> [] \<and> last s = CHR ''%'' then decimal_value (butlast s) else None)"

text \<open>The digits of \<open>toFixed\<close> before the point is inserted.\<close>

definition padded :: "nat \<Rightarrow> nat \<Rightarrow> string" where
  "padded f n = (let m = nat_digits n in
      if length m \<le> f then replicate (f + 1 - length m) (CHR ''0'') @ m else m)"

section \<open>The utility functions\<close>

subsection \<open>\<open>formatBytes\<close>\<close>

definition units :: "string list" where
  "units = [''B'', ''KB'', ''MB'', ''GB'', ''TB'']"

text \<open>
  The \<open>while\<close> loop, on its two variables \<open>size\<close> and \<open>unitIndex\<close> (\<open>size\<close> is taken by
  HOL, so the variable is \<open>size'\<close> here).
\<close>

function formatBytes_loop :: "jsnum \<Rightarrow> nat \<Rightarrow> jsnum \<times> nat" where
  "formatBytes_loop size' unitIndex =
     (if js_ge size' (Fin 1024) \<and> unitIndex < length units - 1
      then formatBytes_loop (js_div size' (Fin 1024)) (unitIndex + 1)
      else (size', unitIndex))"
  by pat_completeness auto
termination
  by (relation "measure (\<lambda>(size', unitIndex). length units - 1 - unitIndex)") auto

declare formatBytes_loop.simps [simp del]

definition formatBytes :: "jsnum \<Rightarrow> string" where
  "formatBytes bytes =
     (let (size', unitIndex) = formatBytes_loop bytes 0
      in toFixed size' 2 @ '' '' @ units ! unitIndex)"

subsection \<open>\<open>formatUptime\<close>\<close>

definition formatUptime :: "jsnum \<Rightarrow> string" where
  "formatUptime seconds =
     (let days = js_floor (js_div seconds (js_mul (Fin 3600) (Fin 24)));
          hours = js_floor (js_div (js_mod seconds (js_mul (Fin 3600) (Fin 24))) (Fin 3600));
          minutes = js_floor (js_div (js_mod seconds (Fin 3600)) (Fin 60));
          secs = js_floor (js_mod seconds (Fin 60))
      in js_toString days @ ''d '' @ js_toString hours @ ''h '' @ js_toString minutes @ ''m ''
           @ js_toString secs @ ''s'')"

subsection \<open>\<open>getPrivateIP\<close>\<close>

text \<open>
  One entry of an array returned by \<open>os.networkInterfaces()\<close>. The function below reads
  the fields \<open>family\<close>, \<open>internal\<close> and \<open>address\<close> only.
\<close>

record iface =
  address :: string
  netmask :: string
  family :: string
  mac :: string
  internal :: bool

text \<open>
  The object returned by \<open>os.networkInterfaces()\<close>: interface names with their address
  arrays, in the order in which \<open>Object.keys\<close> enumerates them.
\<close>

type_synonym interfaces = "(string \<times> iface list) list"

definition visit_iface :: "iface \<Rightarrow> string \<Rightarrow> string" where
  "visit_iface i privateIP =
     (if family i = ''IPv4'' \<and> \<not> internal i then address i else privateIP)"

definition getPrivateIP :: "interfaces \<Rightarrow> string" where
  "getPrivateIP ifs =
     fold (\<lambda>(ifname, addrs) privateIP. fold visit_iface addrs privateIP) ifs ''Not found''"

text \<open>The addresses that pass the test of the inner loop, in enumeration order.\<close>

definition external_ipv4 :: "interfaces \<Rightarrow> iface list" where
  "external_ipv4 ifs =
     filter (\<lambda>i. family i = ''IPv4'' \<and> \<not> internal i) (concat (map snd ifs))"

section \<open>The sampler\<close>

subsection \<open>\<open>getDiskInfo\<close>\<close>

text \<open>
  The object that \<open>disk.check\<close> resolves to. Its fields \<open>available\<close>, \<open>free\<close> and \<open>total\<close>
  carry the prefix \<open>info_\<close> here, after the variable that holds it. A rejected promise is
  the left summand, with the text of the error.
\<close>

record diskusage =
  info_available :: jsnum
  info_free :: jsnum
  info_total :: jsnum

type_synonym js_error = string

text \<open>The object that \<open>getDiskInfo\<close> and \<open>getMemoryInfo\<close> return, with the keys of the source.\<close>

record usage =
  total :: string
  free :: string
  used :: string
  usedPercentage :: string
  freePercentage :: string
  totalRaw :: jsnum
  freeRaw :: jsnum
  usedRaw :: jsnum

text \<open>
  The \<open>catch\<close> branch also writes the error to the console; the console is not part of
  the value returned and is left out.
\<close>

definition getDiskInfo :: "(string \<Rightarrow> js_error + diskusage) \<Rightarrow> usage" where
  "getDiskInfo disk_check =
     (let root = ''/''
      in case disk_check root of
           Inr info \<Rightarrow>
             \<lparr>total = formatBytes (info_total info),
              free = formatBytes (info_free info),
              used = formatBytes (js_sub (info_total info) (info_free info)),
              usedPercentage =
                toFixed (js_mul (js_div (js_sub (info_total info) (info_free info))
                  (info_total info)) (Fin 100)) 2 @ ''%'',
              freePercentage =
                toFixed (js_mul (js_div (info_free info) (info_total info)) (Fin 100)) 2 @ ''%'',
              totalRaw = info_total info,
              freeRaw = info_free info,
              usedRaw = js_sub (info_total info) (info_free info)\<rparr>
         | Inl err \<Rightarrow>
             \<lparr>total = ''N/A'',
              free = ''N/A'',
              used = ''N/A'',
              usedPercentage = ''0%'',
              freePercentage = ''0%'',
              totalRaw = Fin 0,
              freeRaw = Fin 0,
              usedRaw = Fin 0\<rparr>)"

subsection \<open>\<open>getCPUInfo\<close>\<close>

text \<open>
  One entry of \<open>os.cpus()\<close>. Node reports five counters per processor; the keys of
  \<open>cpu.times\<close> are enumerated in the order \<open>user\<close>, \<open>nice\<close>, \<open>sys\<close>, \<open>idle\<close>, \<open>irq\<close>. The
  fields of the input carry the prefixes \<open>cpu_\<close> and \<open>times_\<close>; the records of the output
  have the keys of the source.
\<close>

record cpu_times =
  times_user :: jsnum
  times_nice :: jsnum
  times_sys :: jsnum
  times_idle :: jsnum
  times_irq :: jsnum

record cpu_entry =
  cpu_model :: string
  cpu_speed :: jsnum
  cpu_times :: cpu_times

record core_times =
  user :: string
  system :: string
  idle :: string
  rawTotal :: jsnum
  rawUser :: jsnum
  rawSystem :: jsnum
  rawIdle :: jsnum

record core_info =
  core :: nat
  model :: string
  speed :: string
  times :: core_times

definition times_values :: "cpu_times \<Rightarrow> jsnum list" where
  "times_values t = [times_user t, times_nice t, times_sys t, times_idle t, times_irq t]"

definition core_of :: "nat \<Rightarrow> cpu_entry \<Rightarrow> core_info" where
  "core_of index cpu =
     (let total = fold (\<lambda>time acc. js_add acc time) (times_values (cpu_times cpu)) (Fin 0);
          user = toFixed (js_mul (js_div (times_user (cpu_times cpu)) total) (Fin 100)) 1;
          system = toFixed (js_mul (js_div (times_sys (cpu_times cpu)) total) (Fin 100)) 1;
          idle = toFixed (js_mul (js_div (times_idle (cpu_times cpu)) total) (Fin 100)) 1
      in \<lparr>core = index + 1,
          model = cpu_model cpu,
          speed = js_toString (cpu_speed cpu) @ '' MHz'',
          times = \<lparr>user = user @ ''%'',
                   system = system @ ''%'',
                   idle = idle @ ''%'',
                   rawTotal = total,
                   rawUser = times_user (cpu_times cpu),
                   rawSystem = times_sys (cpu_times cpu),
                   rawIdle = times_idle (cpu_times cpu)\<rparr>\<rparr>)"

definition getCPUInfo :: "cpu_entry list \<Rightarrow> core_info list" where
  "getCPUInfo cpus = map (\<lambda>(index, cpu). core_of index cpu) (enumerate 0 cpus)"

subsection \<open>\<open>getMemoryInfo\<close>\<close>

definition getMemoryInfo :: "jsnum \<Rightarrow> jsnum \<Rightarrow> usage" where
  "getMemoryInfo totalmem freemem =
     (let total = totalmem;
          free = freemem;
          used = js_sub total free;
          usedPercentage = toFixed (js_mul (js_div used total) (Fin 100)) 2 @ ''%'';
          freePercentage = toFixed (js_mul (js_div free total) (Fin 100)) 2 @ ''%''
      in \<lparr>total = formatBytes total,
          free = formatBytes free,
          used = formatBytes used,
          usedPercentage = usedPercentage,
          freePercentage = freePercentage,
          totalRaw = total,
          freeRaw = free,
          usedRaw = used\<rparr>)"

subsection \<open>\<open>getSystemInfo\<close>\<close>

text \<open>
  What the host answers at one moment: the results of the calls to the \<open>os\<close> module and
  of \<open>disk.check\<close>.
\<close>

record host =
  os_platform :: string
  os_type :: string
  os_release :: string
  os_arch :: string
  os_hostname :: string
  os_cpus :: "cpu_entry list"
  os_totalmem :: jsnum
  os_freemem :: jsnum
  os_networkInterfaces :: interfaces
  os_uptime :: jsnum
  disk_check :: "string \<Rightarrow> js_error + diskusage"

text \<open>
  The snapshot. The key \<open>type\<close> of its \<open>os\<close> object is the field \<open>kernel_type\<close>; the keys
  \<open>hostname\<close> and \<open>interfaces\<close> of its \<open>network\<close> object carry the prefix \<open>net_\<close>.
\<close>

record os_info =
  platform :: string
  kernel_type :: string
  release :: string
  arch :: string
  hostname :: string

record network_info =
  privateIP :: string
  net_hostname :: string
  net_interfaces :: interfaces

record snapshot =
  os :: os_info
  cpu :: "core_info list"
  memory :: usage
  disk :: usage
  network :: network_info
  uptime :: string

definition getSystemInfo :: "host \<Rightarrow> snapshot" where
  "getSystemInfo h =
     (let cpuInfo = getCPUInfo (os_cpus h);
          memInfo = getMemoryInfo (os_totalmem h) (os_freemem h);
          diskInfo = getDiskInfo (disk_check h)
      in \<lparr>os = \<lparr>platform = os_platform h,
                kernel_type = os_type h,
                release = os_release h,
                arch = os_arch h,
                hostname = os_hostname h\<rparr>,
          cpu = cpuInfo,
          memory = memInfo,
          disk = diskInfo,
          network = \<lparr>privateIP = getPrivateIP (os_networkInterfaces h),
                     net_hostname = os_hostname h,
                     net_interfaces = os_networkInterfaces h\<rparr>,
          uptime = formatUptime (os_uptime h)\<rparr>)"

section \<open>Observer sessions\<close>

text \<open>
  The handler of \<open>connection\<close> and the three callbacks it installs, as functions on the
  state of one session: the state of the socket, the repeating timer created by
  \<open>setInterval\<close> (its period and the time at which it fires next, in milliseconds), and the
  messages handed to the open socket, each with the time of the call. \<open>JSON.stringify\<close> is
  not modelled: a message is the snapshot itself. The host is a function of time.
\<close>

datatype ready_state = CONNECTING | OPEN | CLOSING | CLOSED

record session =
  readyState :: ready_state
  timer :: "(nat \<times> nat) option"
  sent :: "(nat \<times> snapshot) list"

text \<open>
  \<open>ws.send\<close>: the socket takes the message only while it is open; otherwise the call
  fails and nothing is delivered.
\<close>

definition ws_send :: "nat \<Rightarrow> snapshot \<Rightarrow> session \<Rightarrow> js_error + session" where
  "ws_send now msg ws =
     (if readyState ws = OPEN then Inr (ws\<lparr>sent := sent ws @ [(now, msg)]\<rparr>)
      else Inl ''WebSocket is not open'')"

text \<open>
  The handler of \<open>connection\<close>: one send inside \<open>try\<close>, whose failure is logged and
  dropped, then \<open>setInterval\<close> with the period 1000. The handler waits for
  \<open>getSystemInfo\<close> before it sends; the argument \<open>ws\<close> is the session at the moment of that
  send, so its socket may have closed in the meantime. This first send is not guarded by
  a test of \<open>readyState\<close>, the one of the timer is.
\<close>

definition on_connection :: "(nat \<Rightarrow> host) \<Rightarrow> nat \<Rightarrow> session \<Rightarrow> session" where
  "on_connection host_at now ws =
     (let specs = getSystemInfo (host_at now);
          ws' = (case ws_send now specs ws of Inr ws' \<Rightarrow> ws' | Inl error \<Rightarrow> ws)
      in ws'\<lparr>timer := Some (1000, now + 1000)\<rparr>)"

definition interval_callback :: "(nat \<Rightarrow> host) \<Rightarrow> nat \<Rightarrow> session \<Rightarrow> session" where
  "interval_callback host_at now ws =
     (if readyState ws = OPEN
      then (let specs = getSystemInfo (host_at now)
            in case ws_send now specs ws of Inr ws' \<Rightarrow> ws' | Inl error \<Rightarrow> ws)
      else ws)"

definition on_close :: "session \<Rightarrow> session" where
  "on_close ws = ws\<lparr>timer := None\<rparr>"

definition on_error :: "session \<Rightarrow> session" where
  "on_error ws = ws\<lparr>timer := None\<rparr>"

text \<open>
  The runtime around the handlers. When the clock reaches the time at which an armed
  timer is due, its callback runs and the timer is due again one period later; a cleared
  timer never fires.
\<close>

definition clock_tick :: "(nat \<Rightarrow> host) \<Rightarrow> nat \<Rightarrow> session \<Rightarrow> session" where
  "clock_tick host_at now ws =
     (case timer ws of
        None \<Rightarrow> ws
      | Some (period, due) \<Rightarrow>
          if due = now then (interval_callback host_at now ws)\<lparr>timer := Some (period, due + period)\<rparr>
          else ws)"

text \<open>The session after \<open>d\<close> milliseconds that begin at the time \<open>start\<close>.\<close>

primrec run_ms :: "(nat \<Rightarrow> host) \<Rightarrow> nat \<Rightarrow> nat \<Rightarrow> session \<Rightarrow> session" where
  "run_ms host_at start 0 ws = ws"
| "run_ms host_at start (Suc d) ws = clock_tick host_at (start + Suc d) (run_ms host_at start d ws)"

text \<open>
  What can happen to an attached session: time passes; the socket starts to close, which
  changes \<open>readyState\<close> and calls no handler; \<open>close\<close> is emitted, with the socket closed; or
  \<open>error\<close> is emitted, with the socket closing. Nothing opens a socket again.
\<close>

datatype event = Elapse nat | SocketClosing | PeerClose | SocketError

fun step :: "(nat \<Rightarrow> host) \<Rightarrow> event \<Rightarrow> nat \<times> session \<Rightarrow> nat \<times> session" where
  "step host_at (Elapse d) (now, ws) = (now + d, run_ms host_at now d ws)"
| "step host_at SocketClosing (now, ws) = (now, ws\<lparr>readyState := CLOSING\<rparr>)"
| "step host_at PeerClose (now, ws) = (now, on_close (ws\<lparr>readyState := CLOSED\<rparr>))"
| "step host_at SocketError (now, ws) = (now, on_error (ws\<lparr>readyState := CLOSING\<rparr>))"

definition is_detach :: "event \<Rightarrow> bool" where
  "is_detach ev = (ev = PeerClose \<or> ev = SocketError)"

section \<open>Control endpoints\<close>

text \<open>
  The two \<open>POST\<close> handlers. \<open>exec\<close> runs a command and calls back with an error or with
  none; the handler answers through \<open>res\<close> and writes to the console. A response without
  an explicit status has the status 200. An error is modelled by its text; a line of the
  console is the label given to \<open>console.error\<close> followed by that text.
\<close>

record response =
  status :: nat
  body :: "(string \<times> string) list"

definition restart_endpoint :: "(string \<Rightarrow> js_error option) \<Rightarrow> response \<times> string list" where
  "restart_endpoint exec =
     (case exec ''sudo shutdown -r now'' of
        Some error \<Rightarrow>
          (\<lparr>status = 500, body = [(''error'', ''Failed to restart system'')]\<rparr>,
           [''Restart error: '' @ error])
      | None \<Rightarrow> (\<lparr>status = 200, body = [(''message'', ''System is restarting'')]\<rparr>, []))"

definition shutdown_endpoint :: "(string \<Rightarrow> js_error option) \<Rightarrow> response \<times> string list" where
  "shutdown_endpoint exec =
     (case exec ''sudo shutdown -h now'' of
        Some error \<Rightarrow>
          (\<lparr>status = 500, body = [(''error'', ''Failed to shutdown system'')]\<rparr>,
           [''Shutdown error: '' @ error])
      | None \<Rightarrow> (\<lparr>status = 200, body = [(''message'', ''System is shutting down'')]\<rparr>, []))"

text \<open>A response carries a cause verbatim when the cause occurs in its error text.\<close>

definition carries_cause :: "js_error \<Rightarrow> response \<Rightarrow> bool" where
  "carries_cause cause res = list_ex (\<lambda>(k, v). k = ''error'' \<and> sublist cause v) (body res)"

section \<open>Sample data\<close>

definition lo_if :: iface where
  "lo_if = \<lparr>address = ''127.0.0.1'', netmask = ''255.0.0.0'', family = ''IPv4'',
            mac = ''00:00:00:00:00:00'', internal = True\<rparr>"

definition eth0_v4 :: iface where
  "eth0_v4 = \<lparr>address = ''192.168.1.5'', netmask = ''255.255.255.0'', family = ''IPv4'',
              mac = ''aa:bb:cc:dd:ee:01'', internal = False\<rparr>"

definition wlan0_v4 :: iface where
  "wlan0_v4 = \<lparr>address = ''10.0.0.7'', netmask = ''255.0.0.0'', family = ''IPv4'',
               mac = ''aa:bb:cc:dd:ee:02'', internal = False\<rparr>"

definition wlan0_v6 :: iface where
  "wlan0_v6 = \<lparr>address = ''fe80::1'', netmask = ''ffff:ffff:ffff:ffff::'', family = ''IPv6'',
               mac = ''aa:bb:cc:dd:ee:02'', internal = False\<rparr>"

definition sample_interfaces :: interfaces where
  "sample_interfaces =
     [(''lo'', [lo_if]), (''eth0'', [eth0_v4]), (''wlan0'', [wlan0_v4, wlan0_v6])]"

section \<open>The properties under test\<close>

text \<open>
  The invariant of a usage record as the specification words it: used plus free is the
  total, and the two printed percentages add up to 100 within 0.01.
\<close>

definition usage_invariant :: "usage \<Rightarrow> bool" where
  "usage_invariant m =
     (js_add (usedRaw m) (freeRaw m) = totalRaw m
      \<and> (case (pct_value (usedPercentage m), pct_value (freePercentage m)) of
           (Some u, Some f) \<Rightarrow> \<bar>u + f - 100\<bar> \<le> 1 / 100
         | _ \<Rightarrow> False))"

text \<open>The invariant of the three printed percentages of one core: their sum is 100 within 0.1.\<close>

definition core_invariant :: "core_times \<Rightarrow> bool" where
  "core_invariant t =
     (case (pct_value (user t), pct_value (system t), pct_value (idle t)) of
        (Some u, Some s, Some i) \<Rightarrow> \<bar>u + s + i - 100\<bar> \<le> 1 / 10
      | _ \<Rightarrow> False)"

text \<open>A disk check that fails, and one that succeeds.\<close>

definition unavailable_disk :: "string \<Rightarrow> js_error + diskusage" where
  "unavailable_disk path = Inl ''ENOENT: no such file or directory''"

definition healthy_disk :: "nat \<Rightarrow> nat \<Rightarrow> string \<Rightarrow> js_error + diskusage" where
  "healthy_disk T F path =
     Inr \<lparr>info_available = Fin (of_nat F), info_free = Fin (of_nat F), info_total = Fin (of_nat T)\<rparr>"

text \<open>A processor with the given counters, all of them whole numbers.\<close>

definition cpu_with :: "nat \<Rightarrow> nat \<Rightarrow> nat \<Rightarrow> nat \<Rightarrow> nat \<Rightarrow> cpu_entry" where
  "cpu_with u n s i q =
     \<lparr>cpu_model = ''Generic CPU'', cpu_speed = Fin 2400,
      cpu_times = \<lparr>times_user = Fin (of_nat u), times_nice = Fin (of_nat n),
                    times_sys = Fin (of_nat s), times_idle = Fin (of_nat i),
                    times_irq = Fin (of_nat q)\<rparr>\<rparr>"

text \<open>The claim about failures of a control endpoint, as the specification words it.\<close>

definition failure_is_reported :: "js_error \<Rightarrow> response \<Rightarrow> bool" where
  "failure_is_reported cause res = (status res = 500 \<and> carries_cause cause res)"

text \<open>An \<open>exec\<close> that fails because \<open>sudo\<close> cannot ask for a password, and one that succeeds.\<close>

definition failing_exec :: "string \<Rightarrow> js_error option" where
  "failing_exec command = Some ''sudo: a password is required''"

definition succeeding_exec :: "string \<Rightarrow> js_error option" where
  "succeeding_exec command = None"

text \<open>A host whose disk check fails, constant in time, and a session that has just been opened.\<close>

definition sample_host :: host where
  "sample_host =
     \<lparr>os_platform = ''linux'', os_type = ''Linux'', os_release = ''6.1.0'', os_arch = ''x64'',
      os_hostname = ''monitor'', os_cpus = [cpu_with 200 0 100 700 0],
      os_totalmem = Fin 8192, os_freemem = Fin 3000,
      os_networkInterfaces = sample_interfaces, os_uptime = Fin 90061,
      disk_check = unavailable_disk\<rparr>"

definition steady_host :: "nat \<Rightarrow> host" where
  "steady_host now = sample_host"

definition fresh_session :: session where
  "fresh_session = \<lparr>readyState = OPEN, timer = None, sent = []\<rparr>"

text \<open>A session whose peer has gone while the first snapshot was being computed.\<close>

definition gone_session :: session where
  "gone_session = \<lparr>readyState = CLOSED, timer = None, sent = []\<rparr>"

text \<open>The first part of the claim about sessions: attaching delivers one snapshot at once.\<close>

definition delivers_at_attach :: "(nat \<Rightarrow> host) \<Rightarrow> nat \<Rightarrow> session \<Rightarrow> bool" where
  "delivers_at_attach host_at now ws =
     (sent (on_connection host_at now ws) = sent ws @ [(now, getSystemInfo (host_at now))])"

text \<open>
  The claim about one printed percentage of a core: it is a number, and that number is the
  counter divided by the sum of the counters, times 100, up to half a unit of the first
  decimal and the error of the two roundings of binary64.
\<close>

definition percentage_of_counter :: "string \<Rightarrow> rat \<Rightarrow> rat \<Rightarrow> bool" where
  "percentage_of_counter printed counter sum_of_counters =
     (case pct_value printed of
        Some p \<Rightarrow> \<bar>p - counter / sum_of_counters * 100\<bar> \<le> 1 / 20 + 1 / 10 ^ 13
      | None \<Rightarrow> False)"

section \<open>Rounding to binary64\<close>

lemma ilog2_lower:
  assumes "0 < x"
  shows "2 powi (ilog2 x) \<le> x"
proof (cases "1 \<le> x")
  case True
  define n where "n = \<lfloor>x\<rfloor>"
  have n1: "1 \<le> n" using True by (simp add: n_def)
  then have n0: "0 < n" by simp
  have b: "2 ^ nat (bitlen n - 1) \<le> n" using bitlen_bounds [OF n0] by simp
  have b1: "1 \<le> bitlen n"  using n0 by (simp add: bitlen_alt_def)
  have "2 powi (ilog2 x) = (2::rat) ^ nat (bitlen n - 1)"
    using True b1 by (simp add: ilog2_def n_def power_int_def)
  also have "\<dots> = of_int (2 ^ nat (bitlen n - 1))" by simp
  also have "\<dots> \<le> of_int n" using b by (simp only: of_int_le_iff)
  also have "\<dots> \<le> x" by (simp add: n_def)
  finally show ?thesis .
next
  case False
  define m where "m = \<lceil>1 / x\<rceil> - 1"
  have y1: "1 < 1 / x" using False assms by simp
  then have m1: "1 \<le> m" unfolding m_def by linarith
  then have m0: "0 < m" by simp
  have up: "m < 2 ^ nat (bitlen m)" using bitlen_bounds [OF m0] by simp
  have "1 / x \<le> of_int (m + 1)" unfolding m_def by simp
  also have "\<dots> \<le> of_int (2 ^ nat (bitlen m))" using up by (simp only: of_int_le_iff)
  finally have "1 / x \<le> 2 ^ nat (bitlen m)" by simp
  then have "1 / 2 ^ nat (bitlen m) \<le> x"
    using assms by (simp add: field_simps)
  moreover have "ilog2 x = - bitlen m"
    using False by (simp add: ilog2_def m_def)
  moreover have "2 powi (- bitlen m) = 1 / (2::rat) ^ nat (bitlen m)"
    using bitlen_nonneg [of m] by (simp add: power_int_minus_divide power_int_nonneg_exp)
  ultimately show ?thesis by simp
qed

lemma ilog2_upper:
  assumes "0 < x"
  shows "x < 2 powi (ilog2 x + 1)"
proof (cases "1 \<le> x")
  case True
  define n where "n = \<lfloor>x\<rfloor>"
  have n1: "1 \<le> n" using True by (simp add: n_def)
  then have n0: "0 < n" by simp
  have b: "n < 2 ^ nat (bitlen n)" using bitlen_bounds [OF n0] by simp
  have b1: "1 \<le> bitlen n"  using n0 by (simp add: bitlen_alt_def)
  have "x < of_int (n + 1)" unfolding n_def by linarith
  also have "\<dots> \<le> of_int (2 ^ nat (bitlen n))" using b by (simp only: of_int_le_iff)
  also have "\<dots> = (2::rat) ^ nat (bitlen n)" by simp
  also have "\<dots> = 2 powi (ilog2 x + 1)"
    using True b1 by (simp add: ilog2_def n_def power_int_def)
  finally show ?thesis .
next
  case False
  define m where "m = \<lceil>1 / x\<rceil> - 1"
  have y1: "1 < 1 / x" using False assms by simp
  then have m1: "1 \<le> m" unfolding m_def by linarith
  then have m0: "0 < m" by simp
  have b1: "1 \<le> bitlen m"  using m0 by (simp add: bitlen_alt_def)
  have lo: "2 ^ nat (bitlen m - 1) \<le> m" using bitlen_bounds [OF m0] by simp
  have "(2::rat) ^ nat (bitlen m - 1) = of_int (2 ^ nat (bitlen m - 1))" by simp
  also have "\<dots> \<le> of_int m" using lo by (simp only: of_int_le_iff)
  also have "\<dots> < 1 / x" unfolding m_def by linarith
  finally have "(2::rat) ^ nat (bitlen m - 1) < 1 / x" .
  then have "x < 1 / 2 ^ nat (bitlen m - 1)"
    using assms by (simp add: field_simps)
  moreover have "ilog2 x + 1 = - (bitlen m - 1)"
    using False by (simp add: ilog2_def m_def)
  moreover have "2 powi (- (bitlen m - 1)) = 1 / (2::rat) ^ nat (bitlen m - 1)"
    using b1 by (simp only: power_int_minus_divide) (simp add: power_int_nonneg_exp)
  ultimately show ?thesis by simp
qed

lemma round_even_error: "\<bar>of_int (round_even y) - y\<bar> \<le> 1 / 2"
proof -
  have "of_int \<lfloor>y\<rfloor> \<le> y" "y < of_int \<lfloor>y\<rfloor> + 1" by linarith+
  then show ?thesis
    by (auto simp: round_even_def Let_def abs_le_iff)
qed

lemma round_even_of_int [simp]: "round_even (of_int n) = n"
  by (simp add: round_even_def)

lemma fl_error_unit:
  assumes "x \<noteq> 0"
  shows "\<bar>fl x - x\<bar> \<le> 2 powi unit_exp x / 2"
proof -
  define U :: rat where "U = 2 powi unit_exp x"
  define r where "r = round_even (\<bar>x\<bar> / U)"
  have U0: "0 < U" by (simp add: U_def)
  have "fl x - x = sgn x * (of_int r * U - \<bar>x\<bar>)"
    using assms sgn_mult_abs [of x] by (simp add: fl_def U_def r_def algebra_simps)
  then have "\<bar>fl x - x\<bar> = \<bar>of_int r * U - \<bar>x\<bar>\<bar>"
    using assms by (simp add: abs_mult abs_sgn_eq)
  also have "of_int r * U - \<bar>x\<bar> = U * (of_int r - \<bar>x\<bar> / U)"
    using U0 by (simp add: field_simps)
  also have "\<bar>U * (of_int r - \<bar>x\<bar> / U)\<bar> = U * \<bar>of_int r - \<bar>x\<bar> / U\<bar>"
    using U0 by (simp add: abs_mult)
  also have "\<dots> \<le> U * (1 / 2)"
    using U0 round_even_error [of "\<bar>x\<bar> / U"] unfolding r_def
    by (intro mult_left_mono) simp_all
  finally show ?thesis by (simp add: U_def)
qed

lemma pow2_less_cancel:
  assumes "(2::rat) powi a < 2 powi b"
  shows "a < b"
proof (rule ccontr)
  assume "\<not> a < b"
  then have "b \<le> a" by simp
  then have "(2::rat) powi b \<le> 2 powi a"
    by (intro power_int_increasing) simp_all
  with assms show False by simp
qed

lemma ilog2_ge:
  assumes "2 powi k \<le> x"
  shows "k \<le> ilog2 x"
proof -
  have x0: "0 < x" using assms zero_less_power_int [of "2::rat" k] by linarith
  have "(2::rat) powi k < 2 powi (ilog2 x + 1)"
    using assms ilog2_upper [OF x0] by linarith
  then have "k < ilog2 x + 1"
    by (rule pow2_less_cancel)
  then show ?thesis by simp
qed

lemma ilog2_less:
  assumes "0 < x" "x < 2 powi k"
  shows "ilog2 x < k"
proof -
  have "(2::rat) powi (ilog2 x) < 2 powi k"
    using assms ilog2_lower [OF assms(1)] by linarith
  then show ?thesis
    by (rule pow2_less_cancel)
qed

lemma fl_error_rel:
  assumes "2 powi (- 1022) \<le> \<bar>x\<bar>"
  shows "\<bar>fl x - x\<bar> \<le> \<bar>x\<bar> / 2 ^ 53"
proof -
  have x0: "x \<noteq> 0" "0 < \<bar>x\<bar>"
    using assms zero_less_power_int [of "2::rat" "- 1022"] by auto
  have e: "- 1022 \<le> ilog2 \<bar>x\<bar>"
    using assms by (rule ilog2_ge)
  then have u: "unit_exp x = ilog2 \<bar>x\<bar> - 53 + 1"
    by (simp add: unit_exp_def)
  have "\<bar>fl x - x\<bar> \<le> 2 powi unit_exp x / 2"
    using x0 by (intro fl_error_unit)
  also have "\<dots> = 2 powi (ilog2 \<bar>x\<bar>) / 2 ^ 53"
    unfolding u by (simp add: power_int_add power_int_diff)
  also have "\<dots> \<le> \<bar>x\<bar> / 2 ^ 53"
    using ilog2_lower [OF x0(2)] by (intro divide_right_mono) simp_all
  finally show ?thesis .
qed

lemma fl_exact:
  assumes m: "\<bar>m\<bar> < 2 ^ 53" and j: "- 1074 \<le> j"
  shows "fl (of_int m * 2 powi j) = of_int m * 2 powi j"
proof (cases "m = 0")
  case True
  then show ?thesis by (simp add: fl_def)
next
  case False
  define x :: rat where "x = of_int m * 2 powi j"
  have x0: "x \<noteq> 0" using False by (simp add: x_def)
  have ax: "\<bar>x\<bar> = of_int \<bar>m\<bar> * 2 powi j"
    by (simp add: x_def abs_mult)
  have "\<bar>x\<bar> < 2 ^ 53 * 2 powi j"
    unfolding ax using m by (intro mult_strict_right_mono) (simp_all flip: of_int_less_iff [where ?'a = rat])
  also have "\<dots> = 2 powi (53 + j)"
    by (simp add: power_int_add)
  finally have "ilog2 \<bar>x\<bar> < 53 + j"
    using x0 by (intro ilog2_less) simp_all
  then have uj: "unit_exp x \<le> j"
    using j by (simp add: unit_exp_def)
  define d where "d = nat (j - unit_exp x)"
  have jd: "j = unit_exp x + int d" using uj by (simp add: d_def)
  have "\<bar>x\<bar> / 2 powi unit_exp x = of_int \<bar>m\<bar> * 2 powi (int d)"
    unfolding ax by (subst jd) (simp add: power_int_add)
  also have "\<dots> = of_int (\<bar>m\<bar> * 2 ^ d)" by simp
  finally have q: "\<bar>x\<bar> / 2 powi unit_exp x = of_int (\<bar>m\<bar> * 2 ^ d)" .
  have r: "of_int (round_even (\<bar>x\<bar> / 2 powi unit_exp x)) = \<bar>x\<bar> / 2 powi unit_exp x"
    by (simp only: q round_even_of_int)
  have "fl x = sgn x * (\<bar>x\<bar> / 2 powi unit_exp x) * 2 powi unit_exp x"
    using x0 unfolding fl_def r by simp
  also have "\<dots> = sgn x * \<bar>x\<bar>" by simp
  also have "\<dots> = x" by (rule sgn_mult_abs)
  finally show ?thesis by (simp add: x_def)
qed

section \<open>Digits\<close>

lemma digit_char_props:
  assumes "d < 10"
  shows "is_digit (digit_char d)" "digit_nat (digit_char d) = d" "digit_char d \<noteq> CHR ''.''"
    "digit_char d \<noteq> CHR ''-''"
proof -
  from assms consider "d = 0" | "d = 1" | "d = 2" | "d = 3" | "d = 4" | "d = 5" | "d = 6"
    | "d = 7" | "d = 8" | "d = 9" by atomize_elim arith
  then have "is_digit (digit_char d) \<and> digit_nat (digit_char d) = d \<and> digit_char d \<noteq> CHR ''.''
      \<and> digit_char d \<noteq> CHR ''-''"
    by cases (simp_all add: digit_char_def is_digit_def digit_nat_def)
  then show "is_digit (digit_char d)" "digit_nat (digit_char d) = d" "digit_char d \<noteq> CHR ''.''"
    "digit_char d \<noteq> CHR ''-''"
    by simp_all
qed

lemma nat_digits_ne [simp]: "nat_digits n \<noteq> []"
  by (subst nat_digits.simps) simp

lemma nat_digits_all: "list_all is_digit (nat_digits n)"
proof (induction n rule: nat_digits.induct)
  case (1 n)
  show ?case
  proof (cases "n < 10")
    case True
    then show ?thesis by (subst nat_digits.simps) (simp add: digit_char_props)
  next
    case False
    with 1 show ?thesis by (subst nat_digits.simps) (simp add: digit_char_props)
  qed
qed

lemma dval_snoc: "dval (s @ [c]) = 10 * dval s + digit_nat c"
  by (simp add: dval_def)

lemma dval_nat_digits: "dval (nat_digits n) = n"
proof (induction n rule: nat_digits.induct)
  case (1 n)
  show ?case
  proof (cases "n < 10")
    case True
    then show ?thesis by (subst nat_digits.simps) (simp add: dval_def digit_char_props)
  next
    case False
    with 1 have "dval (nat_digits (n div 10)) = n div 10" by simp
    with False show ?thesis
      by (subst nat_digits.simps) (simp add: dval_snoc digit_char_props)
  qed
qed

lemma fold_dval: "fold (\<lambda>c a. 10 * a + digit_nat c) s a = a * 10 ^ length s + dval s"
proof (induction s arbitrary: a)
  case Nil
  show ?case by (simp add: dval_def)
next
  case (Cons c s)
  let ?g = "\<lambda>c a. 10 * a + digit_nat c"
  have "dval (c # s) = fold ?g s (digit_nat c)"
    by (simp add: dval_def)
  also have "\<dots> = digit_nat c * 10 ^ length s + dval s" by (rule Cons.IH)
  finally have d: "dval (c # s) = digit_nat c * 10 ^ length s + dval s" .
  have "fold ?g (c # s) a = fold ?g s (10 * a + digit_nat c)" by simp
  also have "\<dots> = (10 * a + digit_nat c) * 10 ^ length s + dval s" by (rule Cons.IH)
  also have "\<dots> = a * 10 ^ length (c # s) + dval (c # s)"
    unfolding d by (simp add: algebra_simps)
  finally show ?case .
qed

lemma dval_append: "dval (xs @ ys) = dval xs * 10 ^ length ys + dval ys"
proof -
  have "dval (xs @ ys) = fold (\<lambda>c a. 10 * a + digit_nat c) ys (dval xs)"
    by (simp add: dval_def)
  also have "\<dots> = dval xs * 10 ^ length ys + dval ys" by (rule fold_dval)
  finally show ?thesis .
qed

lemma dval_zeros: "dval (replicate z (CHR ''0'')) = 0"
  by (induction z) (simp_all add: dval_def digit_nat_def)


lemma padded_props:
  "dval (padded f n) = n" "list_all is_digit (padded f n)" "f < length (padded f n)"
proof -
  have z: "list_all is_digit (replicate k (CHR ''0''))" for k
    by (simp add: list_all_iff is_digit_def)
  show "dval (padded f n) = n"
    by (simp add: padded_def Let_def dval_append dval_zeros dval_nat_digits)
  show "list_all is_digit (padded f n)"
    by (simp add: padded_def Let_def nat_digits_all z)
  show "f < length (padded f n)"
    by (simp add: padded_def Let_def)
qed

lemma fixed_digits_eq:
  "0 < f \<Longrightarrow> fixed_digits f n =
     take (length (padded f n) - f) (padded f n) @ ''.'' @ drop (length (padded f n) - f) (padded f n)"
proof -
  assume "0 < f"
  then have f: "(f = 0) = False" by simp
  have "fixed_digits f n = (let m' = padded f n; k = length m' in take (k - f) m' @ ''.'' @ drop (k - f) m')"
    unfolding fixed_digits_def padded_def
    by (simp only: f if_False Let_def)
  then show ?thesis
    by (simp only: Let_def)
qed

lemma unsigned_value_point:
  assumes a: "all_digits a" and b: "all_digits b"
  shows "unsigned_value (a @ ''.'' @ b) = Some (of_nat (dval a) + of_nat (dval b) / 10 ^ length b)"
proof -
  have nd: "c \<noteq> CHR ''.''" if "is_digit c" for c
    using that by (auto simp: is_digit_def)
  have "\<forall>c\<in>set a. is_digit c"
    using a by (simp add: all_digits_def list_all_iff)
  then have nodot: "\<forall>c\<in>set a. c \<noteq> CHR ''.''"
    using nd by blast
  have tw: "takeWhile (\<lambda>c. c \<noteq> CHR ''.'') (a @ ''.'' @ b) = a"
    using nodot by (simp add: takeWhile_append2)
  have dw: "dropWhile (\<lambda>c. c \<noteq> CHR ''.'') (a @ ''.'' @ b) = ''.'' @ b"
    using nodot by (simp add: dropWhile_append2)
  show ?thesis
    unfolding unsigned_value_def tw dw Let_def
    using a b by simp
qed

lemma unsigned_value_fixed:
  assumes "0 < f"
  shows "unsigned_value (fixed_digits f n) = Some (of_nat n / 10 ^ f)"
proof -
  define p where "p = padded f n"
  define k where "k = length p - f"
  have len: "f < length p" and dig: "list_all is_digit p" and val: "dval p = n"
    by (simp_all add: p_def padded_props)
  have lb: "length (drop k p) = f" and la: "length (take k p) = k" and k0: "0 < k"
    using len by (simp_all add: k_def)
  have da: "all_digits (take k p)"
    unfolding all_digits_def list_all_iff
  proof
    show "take k p \<noteq> []" using la k0 by auto
    show "\<forall>c\<in>set (take k p). is_digit c"
      using dig by (auto simp: list_all_iff dest: in_set_takeD)
  qed
  have db: "all_digits (drop k p)"
    unfolding all_digits_def list_all_iff
  proof
    show "drop k p \<noteq> []" using lb assms by auto
    show "\<forall>c\<in>set (drop k p). is_digit c"
      using dig by (auto simp: list_all_iff dest: in_set_dropD)
  qed
  have "dval (take k p @ drop k p) = dval (take k p) * 10 ^ f + dval (drop k p)"
    by (simp only: dval_append lb)
  then have "n = dval (take k p) * 10 ^ f + dval (drop k p)"
    by (simp add: val)
  then have "(of_nat n :: rat) = of_nat (dval (take k p)) * 10 ^ f + of_nat (dval (drop k p))"
    by (metis of_nat_add of_nat_mult of_nat_numeral of_nat_power)
  then have v: "(of_nat n :: rat) / 10 ^ f
      = of_nat (dval (take k p)) + of_nat (dval (drop k p)) / 10 ^ f"
    by (simp add: add_divide_distrib)
  have "fixed_digits f n = take k p @ ''.'' @ drop k p"
    using assms by (simp add: fixed_digits_eq p_def k_def)
  then show ?thesis
    by (simp only: unsigned_value_point [OF da db] lb v)
qed

section \<open>The private address\<close>

lemma fold_visit_iface:
  "fold visit_iface addrs ip =
     (let cs = filter (\<lambda>i. family i = ''IPv4'' \<and> \<not> internal i) addrs
      in if cs = [] then ip else address (last cs))"
  by (induction addrs arbitrary: ip) (simp_all add: visit_iface_def Let_def)

lemma fold_interfaces:
  "fold (\<lambda>(ifname, addrs) privateIP. fold visit_iface addrs privateIP) ifs ip =
     (if external_ipv4 ifs = [] then ip else address (last (external_ipv4 ifs)))"
proof (induction ifs arbitrary: ip)
  case Nil
  show ?case by (simp add: external_ipv4_def)
next
  case (Cons p ifs)
  obtain ifname addrs where p: "p = (ifname, addrs)" by (cases p)
  let ?F = "\<lambda>(ifname, addrs) privateIP. fold visit_iface addrs privateIP"
  have split_ext: "external_ipv4 (p # ifs) =
      filter (\<lambda>i. family i = ''IPv4'' \<and> \<not> internal i) addrs @ external_ipv4 ifs"
    by (simp add: external_ipv4_def p)
  have "fold ?F (p # ifs) ip = fold ?F ifs (fold visit_iface addrs ip)"
    by (simp add: p)
  also have "\<dots> = (if external_ipv4 ifs = [] then fold visit_iface addrs ip
                      else address (last (external_ipv4 ifs)))"
    by (rule Cons.IH)
  also have "\<dots> = (if external_ipv4 (p # ifs) = [] then ip
                      else address (last (external_ipv4 (p # ifs))))"
    unfolding split_ext fold_visit_iface
    by (simp add: Let_def)
  finally show ?case .
qed

text \<open>
  Claim C8. Among all non-loopback IPv4 addresses reported by the host, \<open>getPrivateIP\<close>
  returns the address of the last one in enumeration order: interfaces in key order, and
  the addresses of one interface in array order.
\<close>

theorem getPrivateIP_last:
  "external_ipv4 ifs \<noteq> [] \<Longrightarrow> getPrivateIP ifs = address (last (external_ipv4 ifs))"
  unfolding getPrivateIP_def fold_interfaces
  by simp

theorem getPrivateIP_last_witness:
  "external_ipv4 sample_interfaces \<noteq> [] \<and> getPrivateIP sample_interfaces = ''10.0.0.7''"
proof -
  have ext: "external_ipv4 sample_interfaces = [eth0_v4, wlan0_v4]"
    by (simp add: external_ipv4_def sample_interfaces_def lo_if_def eth0_v4_def
        wlan0_v4_def wlan0_v6_def)
  have ne: "external_ipv4 sample_interfaces \<noteq> []"
    by (simp add: ext)
  show ?thesis
    using getPrivateIP_last [OF ne] by (simp add: ext wlan0_v4_def)
qed

text \<open>
  Claim C10. When the host reports no non-loopback IPv4 address at all, \<open>getPrivateIP\<close>
  returns the string \<open>Not found\<close>, the initial value of its variable.
\<close>

theorem getPrivateIP_not_found:
  "external_ipv4 ifs = [] \<Longrightarrow> getPrivateIP ifs = ''Not found''"
  unfolding getPrivateIP_def fold_interfaces
  by simp

theorem getPrivateIP_not_found_witness:
  "external_ipv4 [(''lo'', [lo_if])] = [] \<and> getPrivateIP [(''lo'', [lo_if])] = ''Not found''"
proof -
  have none: "external_ipv4 [(''lo'', [lo_if])] = []"
    by (simp add: external_ipv4_def lo_if_def)
  show ?thesis
    using getPrivateIP_not_found [OF none] none by simp
qed

lemma round_even_nonneg: "0 \<le> y \<Longrightarrow> 0 \<le> round_even y"
  by (auto simp: round_even_def Let_def)

lemma fl_nonneg: "0 \<le> x \<Longrightarrow> 0 \<le> fl x"
  by (simp add: fl_def round_even_nonneg sgn_if)

lemma fl_zero [simp]: "fl 0 = 0"
  by (simp add: fl_def)

lemma unit_le: "x \<noteq> 0 \<Longrightarrow> 2 powi unit_exp x \<le> max \<bar>x\<bar> 1"
proof -
  assume "x \<noteq> 0"
  then have x0: "0 < \<bar>x\<bar>" by simp
  have a: "(2::rat) powi (ilog2 \<bar>x\<bar> - 52) \<le> \<bar>x\<bar>"
  proof -
    have "(2::rat) powi (ilog2 \<bar>x\<bar> - 52) \<le> 2 powi (ilog2 \<bar>x\<bar>)"
      by (intro power_int_increasing) simp_all
    also have "\<dots> \<le> \<bar>x\<bar>" by (rule ilog2_lower [OF x0])
    finally show ?thesis .
  qed
  have b: "(2::rat) powi (- 1074) \<le> 1"
    by (simp add: power_int_minus_divide)
  show ?thesis
    unfolding unit_exp_def using a b by (auto simp: max_def)
qed

lemma fl_abs_le: "\<bar>fl x\<bar> \<le> \<bar>x\<bar> + max \<bar>x\<bar> 1 / 2"
proof (cases "x = 0")
  case True
  then show ?thesis by simp
next
  case False
  have "\<bar>fl x\<bar> \<le> \<bar>x\<bar> + \<bar>fl x - x\<bar>" by linarith
  also have "\<dots> \<le> \<bar>x\<bar> + 2 powi unit_exp x / 2"
    using fl_error_unit [OF False] by simp
  also have "\<dots> \<le> \<bar>x\<bar> + max \<bar>x\<bar> 1 / 2"
    using unit_le [OF False] by simp
  finally show ?thesis .
qed

lemma round64_small:
  assumes "\<bar>x\<bar> \<le> 2 ^ 64"
  shows "round64 x = Fin (fl x)"
proof -
  have "max \<bar>x\<bar> 1 \<le> 2 ^ 64" using assms by simp
  then have "\<bar>fl x\<bar> \<le> 2 ^ 64 + 2 ^ 64 / 2"
    using fl_abs_le [of x] assms by linarith
  also have "\<dots> < 2 ^ 1024" by simp
  finally have "\<bar>fl x\<bar> < 2 ^ 1024" .
  then show ?thesis
    by (simp add: round64_def Let_def abs_less_iff del: power_numeral)
qed


lemma round64_dyadic:
  assumes m: "\<bar>m\<bar> < 2 ^ 53" and j: "- 1074 \<le> j" "j \<le> 10"
  shows "round64 (of_int m * 2 powi j) = Fin (of_int m * 2 powi j)"
proof -
  from m have "\<bar>m\<bar> \<le> 2 ^ 53" by simp
  then have "rat_of_int \<bar>m\<bar> \<le> rat_of_int (2 ^ 53)"
    by (rule iffD2 [OF of_int_le_iff])
  then have am: "\<bar>rat_of_int m\<bar> \<le> 2 ^ 53"
    by simp
  have "(2::rat) powi j \<le> 2 powi 10"
    using j by (intro power_int_increasing) simp_all
  with am have "\<bar>rat_of_int m\<bar> * 2 powi j \<le> 2 ^ 53 * 2 powi 10"
    by (intro mult_mono) simp_all
  then have "\<bar>of_int m * 2 powi j\<bar> \<le> (2::rat) ^ 64"
    by (simp add: abs_mult)
  then have "round64 (of_int m * 2 powi j) = Fin (fl (of_int m * 2 powi j))"
    by (rule round64_small)
  then show ?thesis
    by (simp only: fl_exact [OF m j(1)])
qed

lemma round64_nat:
  assumes "n < 2 ^ 53"
  shows "round64 (of_nat n) = Fin (of_nat n)"
proof -
  have "\<bar>int n\<bar> < 2 ^ 53" using assms by simp
  from round64_dyadic [OF this, of 0] show ?thesis by simp
qed

lemma js_add_nat:
  assumes "a + b < 2 ^ 53"
  shows "js_add (Fin (of_nat a)) (Fin (of_nat b)) = Fin (of_nat (a + b))"
  using round64_nat [OF assms] by simp

lemma js_sub_nat:
  assumes "b \<le> a" "a < 2 ^ 53"
  shows "js_sub (Fin (of_nat a)) (Fin (of_nat b)) = Fin (of_nat (a - b))"
proof -
  have "a - b < 2 ^ 53" using assms by simp
  from round64_nat [OF this] show ?thesis using assms by (simp add: of_nat_diff)
qed

text \<open>Division of a whole number below 2^53 by a power of 1024, at most four times.\<close>

lemma js_div_1024:
  assumes "b < 2 ^ 53" "k \<le> 4"
  shows "js_div (Fin (of_nat b / 1024 ^ k)) (Fin 1024) = Fin (of_nat b / 1024 ^ Suc k)"
proof -
  have m: "\<bar>int b\<bar> < 2 ^ 53" using assms by simp
  have j: "- 1074 \<le> - 10 * int (Suc k)" "- 10 * int (Suc k) \<le> 10" using assms by simp_all
  have e: "(of_nat b :: rat) / 1024 ^ Suc k = of_int (int b) * 2 powi (- 10 * int (Suc k))"
  proof -
    have "(1024::rat) ^ Suc k = (2 ^ 10) ^ Suc k" by simp
    also have "\<dots> = 2 ^ (10 * Suc k)" by (simp only: power_mult)
    also have "\<dots> = 2 powi (int (10 * Suc k))" by (simp only: power_int_of_nat)
    finally have p: "(1024::rat) ^ Suc k = 2 powi (int (10 * Suc k))" .
    have "(2::rat) powi (- 10 * int (Suc k)) = inverse (2 powi (int (10 * Suc k)))"
      by (simp only: power_int_minus [symmetric]) simp
    then show ?thesis
      unfolding p by (simp only: divide_inverse of_int_of_nat_eq)
  qed
  have "js_div (Fin (of_nat b / 1024 ^ k)) (Fin 1024) = round64 (of_nat b / 1024 ^ Suc k)"
    by (simp add: mult.commute)
  also have "\<dots> = Fin (of_nat b / 1024 ^ Suc k)"
    unfolding e by (rule round64_dyadic [OF m j])
  finally show ?thesis .
qed

lemma round_half_up_error:
  assumes "0 \<le> y"
  shows "\<bar>of_nat (round_half_up y) - y\<bar> \<le> 1 / 2"
proof -
  define k where "k = \<lfloor>y + 1 / 2\<rfloor>"
  have k0: "0 \<le> k" using assms unfolding k_def by simp
  have "of_int k \<le> y + 1 / 2" "y + 1 / 2 < of_int k + 1"
    unfolding k_def by linarith+
  then have "\<bar>of_int k - y\<bar> \<le> 1 / 2" by linarith
  moreover have "(of_nat (round_half_up y) :: rat) = of_int k"
    using k0 by (simp add: round_half_up_def k_def)
  ultimately show ?thesis by simp
qed

lemma round_half_up_of_nat [simp]: "round_half_up (of_nat m) = m"
proof -
  have "\<lfloor>(of_nat m :: rat) + 1 / 2\<rfloor> = int m"
    by (rule floor_unique) simp_all
  then show ?thesis by (simp add: round_half_up_def)
qed

lemma is_digit_not_minus: "is_digit c \<Longrightarrow> c \<noteq> CHR ''-''"
  by (auto simp: is_digit_def)

lemma fixed_digits_hd:
  assumes "0 < f"
  shows "fixed_digits f n \<noteq> []" "hd (fixed_digits f n) \<noteq> CHR ''-''"
proof -
  define p where "p = padded f n"
  define k where "k = length p - f"
  have len: "f < length p" and dig: "list_all is_digit p"
    by (simp_all add: p_def padded_props)
  have k0: "0 < k" using len by (simp add: k_def)
  have fd: "fixed_digits f n = take k p @ ''.'' @ drop k p"
    using assms by (simp add: fixed_digits_eq p_def k_def)
  show "fixed_digits f n \<noteq> []" by (simp add: fd)
  have pne: "p \<noteq> []" using len by auto
  then have "hd (fixed_digits f n) = hd p"
    using k0 by (simp add: fd hd_append)
  moreover have "is_digit (hd p)"
    using dig pne by (cases p) simp_all
  ultimately show "hd (fixed_digits f n) \<noteq> CHR ''-''"
    by (simp add: is_digit_not_minus)
qed

lemma decimal_value_toFixed:
  assumes "0 \<le> x" "0 < f"
  shows "decimal_value (toFixed (Fin x) f) = Some (of_nat (round_half_up (x * 10 ^ f)) / 10 ^ f)"
proof -
  have nx: "\<not> x < 0" and ax: "\<bar>x\<bar> = x" using assms by simp_all
  have tf: "toFixed (Fin x) f = fixed_digits f (round_half_up (x * 10 ^ f))"
    by (simp only: toFixed.simps nx ax if_False append_Nil)
  show ?thesis
    unfolding tf decimal_value_def
    using fixed_digits_hd [OF assms(2)] unsigned_value_fixed [OF assms(2)]
    by simp
qed

lemma pct_value_toFixed:
  assumes "0 \<le> x" "0 < f"
  shows "pct_value (toFixed (Fin x) f @ ''%'') = Some (of_nat (round_half_up (x * 10 ^ f)) / 10 ^ f)"
  unfolding pct_value_def using decimal_value_toFixed [OF assms] by (simp del: toFixed.simps)

lemma formatBytes_loop_scaled:
  assumes "b < 2 ^ 53" "k \<le> 4"
  shows "\<exists>i. k \<le> i \<and> i \<le> 4
    \<and> formatBytes_loop (Fin (of_nat b / 1024 ^ k)) k = (Fin (of_nat b / 1024 ^ i), i)
    \<and> (of_nat b / 1024 ^ i < (1024::rat) \<or> i = 4)
    \<and> (i = k \<or> (1024::rat) \<le> of_nat b / 1024 ^ (i - 1))"
  using assms(2)
proof (induction "4 - k" arbitrary: k)
  case 0
  then have k: "k = 4" by simp
  have "formatBytes_loop (Fin (of_nat b / 1024 ^ k)) k = (Fin (of_nat b / 1024 ^ k), k)"
    by (subst formatBytes_loop.simps) (simp add: k units_def)
  then show ?case using k by blast
next
  case (Suc n)
  then have k: "k < 4" by simp
  show ?case
  proof (cases "(1024::rat) \<le> of_nat b / 1024 ^ k")
    case False
    have "formatBytes_loop (Fin (of_nat b / 1024 ^ k)) k = (Fin (of_nat b / 1024 ^ k), k)"
      using False by (subst formatBytes_loop.simps) simp
    then show ?thesis using False k by (intro exI [of _ k]) simp
  next
    case True
    have n: "n = 4 - Suc k" and k1: "Suc k \<le> 4" using Suc.hyps(2) k by simp_all
    from Suc.hyps(1) [OF n k1] obtain i where i: "Suc k \<le> i" "i \<le> 4"
      "formatBytes_loop (Fin (of_nat b / 1024 ^ Suc k)) (Suc k) = (Fin (of_nat b / 1024 ^ i), i)"
      "of_nat b / 1024 ^ i < (1024::rat) \<or> i = 4"
      "i = Suc k \<or> (1024::rat) \<le> of_nat b / 1024 ^ (i - 1)"
      by blast
    have "formatBytes_loop (Fin (of_nat b / 1024 ^ k)) k
        = formatBytes_loop (js_div (Fin (of_nat b / 1024 ^ k)) (Fin 1024)) (k + 1)"
      using True k by (subst formatBytes_loop.simps) (simp add: units_def)
    also have "\<dots> = formatBytes_loop (Fin (of_nat b / 1024 ^ Suc k)) (Suc k)"
      using js_div_1024 [OF assms(1), of k] k by simp
    finally have l: "formatBytes_loop (Fin (of_nat b / 1024 ^ k)) k = (Fin (of_nat b / 1024 ^ i), i)"
      using i(3) by simp
    have "(1024::rat) \<le> of_nat b / 1024 ^ (i - 1)"
      using i(5) True by auto
    with i l show ?thesis by (intro exI [of _ i]) simp
  qed
qed

lemma nat_digits_small: "n < 10 \<Longrightarrow> nat_digits n = [digit_char n]"
  by (subst nat_digits.simps) simp

lemma nat_digits_step:
  "10 \<le> n \<Longrightarrow> nat_digits n = nat_digits (n div 10) @ [digit_char (n mod 10)]"
  by (subst nat_digits.simps) simp

lemma round_half_up_eqI:
  assumes "of_nat n \<le> y + 1 / 2" "y + 1 / 2 < of_nat n + 1"
  shows "round_half_up y = n"
proof -
  have "\<lfloor>y + 1 / 2\<rfloor> = int n"
    using assms by (intro floor_unique) simp_all
  then show ?thesis by (simp add: round_half_up_def)
qed

lemma round_even_eqI:
  assumes "\<bar>y - of_int n\<bar> < 1 / 2"
  shows "round_even y = n"
proof -
  have e: "\<bar>of_int (round_even y) - y\<bar> \<le> 1 / 2" by (rule round_even_error)
  have "\<bar>rat_of_int (round_even y) - rat_of_int n\<bar> < 1"
    using assms e by linarith
  then have "\<bar>rat_of_int (round_even y - n)\<bar> < rat_of_int 1"
    by simp
  then have "\<bar>round_even y - n\<bar> < 1"
    by (simp only: of_int_abs [symmetric] of_int_less_iff)
  then show ?thesis by simp
qed

lemma toFixed_one: "toFixed (Fin 1) 2 = ''1.00''"
proof -
  have n: "round_half_up (\<bar>1\<bar> * 10 ^ 2) = 100"
    by (rule round_half_up_eqI) simp_all
  have d: "nat_digits 100 = ''100''"
    by (simp add: nat_digits_small nat_digits_step digit_char_def)
  have p: "padded 2 100 = ''100''"
    by (simp add: padded_def d)
  have f: "fixed_digits 2 100 = ''1.00''"
    by (simp add: fixed_digits_eq p)
  show ?thesis
    by (simp only: toFixed.simps n f) simp
qed

lemma formatBytes_GB: "formatBytes (Fin 1073741824) = ''1.00 GB''"
proof -
  have d1: "js_div (Fin 1073741824) (Fin 1024) = Fin 1048576"
    using js_div_1024 [of 1073741824 0] by simp
  have d2: "js_div (Fin 1048576) (Fin 1024) = Fin 1024"
    using js_div_1024 [of 1048576 0] by simp
  have d3: "js_div (Fin 1024) (Fin 1024) = Fin 1"
    using js_div_1024 [of 1024 0] by simp
  have "formatBytes_loop (Fin 1073741824) 0 = (Fin 1, 3)"
    by (simp add: formatBytes_loop.simps units_def d1 d2 d3 del: js_div.simps)
  then show ?thesis
    by (simp add: formatBytes_def toFixed_one units_def del: toFixed.simps)
qed

text \<open>
  Claim C2. For a byte count \<open>b\<close> (a whole number that a JavaScript number holds exactly),
  \<open>formatBytes\<close> divides by 1024 until the value is below 1024 or the unit is \<open>TB\<close>, and
  not further than needed: unless the unit is \<open>B\<close>, the value in the unit before was 1024
  or more. It prints the scaled value rounded to two decimals, and the printed number
  times the size of the unit is within one percent of \<open>b\<close>. In particular
  \<open>formatBytes(1073741824)\<close> is \<open>1.00 GB\<close>.
\<close>

theorem formatBytes_unit_and_value:
  assumes "b < 2 ^ 53"
  shows "(\<exists>i v. i < length units
      \<and> formatBytes (Fin (of_nat b)) = toFixed (Fin (of_nat b / 1024 ^ i)) 2 @ '' '' @ units ! i
      \<and> (of_nat b / 1024 ^ i < (1024::rat) \<or> units ! i = ''TB'')
      \<and> (units ! i = ''B'' \<or> (1024::rat) \<le> of_nat b / 1024 ^ (i - 1))
      \<and> decimal_value (toFixed (Fin (of_nat b / 1024 ^ i)) 2) = Some v
      \<and> (\<exists>n::nat. v = of_nat n / 100)
      \<and> \<bar>v - of_nat b / 1024 ^ i\<bar> \<le> 1 / 200
      \<and> \<bar>v * 1024 ^ i - of_nat b\<bar> \<le> of_nat b / 100)
    \<and> formatBytes (Fin 1073741824) = ''1.00 GB''"
proof -
  from formatBytes_loop_scaled [OF assms, of 0]
  obtain i where i: "i \<le> 4"
    "formatBytes_loop (Fin (of_nat b)) 0 = (Fin (of_nat b / 1024 ^ i), i)"
    "of_nat b / 1024 ^ i < (1024::rat) \<or> i = 4"
    "i = 0 \<or> (1024::rat) \<le> of_nat b / 1024 ^ (i - 1)"
    by auto
  define x :: rat where "x = of_nat b / 1024 ^ i"
  define n where "n = round_half_up (x * 10 ^ 2)"
  define v :: rat where "v = of_nat n / 10 ^ 2"
  have x0: "0 \<le> x" by (simp add: x_def)
  have dv: "decimal_value (toFixed (Fin x) 2) = Some v"
    unfolding v_def n_def by (rule decimal_value_toFixed [OF x0]) simp
  have "\<bar>of_nat n - x * 10 ^ 2\<bar> \<le> 1 / 2"
    unfolding n_def using x0 by (intro round_half_up_error) simp
  then have err: "\<bar>v - x\<bar> \<le> 1 / 200"
    unfolding v_def by (simp add: abs_le_iff field_simps)
  have rel: "\<bar>v * 1024 ^ i - of_nat b\<bar> \<le> of_nat b / 100"
  proof (cases "i = 0")
    case True
    then have "x * 10 ^ 2 = of_nat (b * 100)" by (simp add: x_def)
    then have "n = b * 100" unfolding n_def by (simp only: round_half_up_of_nat)
    then have "v = of_nat b" by (simp add: v_def)
    then show ?thesis using True by simp
  next
    case False
    with i(4) have "(1024::rat) \<le> of_nat b / 1024 ^ (i - 1)" by simp
    then have "(1024::rat) * 1024 ^ (i - 1) \<le> of_nat b"
      by (simp add: pos_le_divide_eq)
    moreover have "(1024::rat) * 1024 ^ (i - 1) = 1024 ^ i"
      using False by (cases i) simp_all
    ultimately have big: "(1024::rat) ^ i \<le> of_nat b" by simp
    have "v * 1024 ^ i - of_nat b = (v - x) * 1024 ^ i"
      by (simp add: x_def algebra_simps)
    then have "\<bar>v * 1024 ^ i - of_nat b\<bar> = \<bar>v - x\<bar> * 1024 ^ i"
      by (simp add: abs_mult)
    also have "\<dots> \<le> 1 / 200 * 1024 ^ i"
      using err by (intro mult_right_mono) simp_all
    also have "\<dots> \<le> 1 / 200 * of_nat b"
      using big by (intro mult_left_mono) simp_all
    also have "\<dots> \<le> of_nat b / 100" by simp
    finally show ?thesis .
  qed
  have fb: "formatBytes (Fin (of_nat b)) = toFixed (Fin x) 2 @ '' '' @ units ! i"
    by (simp add: formatBytes_def i(2) x_def del: toFixed.simps)
  have il: "i < length units" using i(1) by (simp add: units_def)
  have tb: "x < 1024 \<or> units ! i = ''TB''"
    using i(3) by (auto simp: x_def units_def)
  have bb: "units ! i = ''B'' \<or> (1024::rat) \<le> of_nat b / 1024 ^ (i - 1)"
    using i(4) by (auto simp: units_def)
  have two: "\<exists>n::nat. v = of_nat n / 100"
    unfolding v_def by (intro exI [of _ n]) simp
  have "\<exists>i v. i < length units
      \<and> formatBytes (Fin (of_nat b)) = toFixed (Fin (of_nat b / 1024 ^ i)) 2 @ '' '' @ units ! i
      \<and> (of_nat b / 1024 ^ i < (1024::rat) \<or> units ! i = ''TB'')
      \<and> (units ! i = ''B'' \<or> (1024::rat) \<le> of_nat b / 1024 ^ (i - 1))
      \<and> decimal_value (toFixed (Fin (of_nat b / 1024 ^ i)) 2) = Some v
      \<and> (\<exists>n::nat. v = of_nat n / 100)
      \<and> \<bar>v - of_nat b / 1024 ^ i\<bar> \<le> 1 / 200
      \<and> \<bar>v * 1024 ^ i - of_nat b\<bar> \<le> of_nat b / 100"
    using il fb tb bb dv two err rel unfolding x_def by blast
  then show ?thesis
    using formatBytes_GB by blast
qed

theorem formatBytes_unit_and_value_witness:
  "(1536::nat) < 2 ^ 53
   \<and> (\<exists>i v. i < length units
      \<and> formatBytes (Fin (of_nat (1536::nat)))
          = toFixed (Fin (of_nat (1536::nat) / 1024 ^ i)) 2 @ '' '' @ units ! i
      \<and> decimal_value (toFixed (Fin (of_nat (1536::nat) / 1024 ^ i)) 2) = Some v
      \<and> \<bar>v * 1024 ^ i - of_nat (1536::nat)\<bar> \<le> of_nat (1536::nat) / 100)"
proof -
  have h: "(1536::nat) < 2 ^ 53" by simp
  from formatBytes_unit_and_value [OF h] obtain i v where
    "i < length units"
    "formatBytes (Fin (of_nat (1536::nat)))
       = toFixed (Fin (of_nat (1536::nat) / 1024 ^ i)) 2 @ '' '' @ units ! i"
    "decimal_value (toFixed (Fin (of_nat (1536::nat) / 1024 ^ i)) 2) = Some v"
    "\<bar>v * 1024 ^ i - of_nat (1536::nat)\<bar> \<le> of_nat (1536::nat) / 100"
    by blast
  with h show ?thesis by blast
qed

lemma tiny_le: "(2::rat) powi (- 1022) \<le> 1 / 2 ^ 60"
proof -
  have "(2::rat) powi (- 1022) \<le> 2 powi (- 60)"
    by (intro power_int_increasing) simp_all
  also have "\<dots> = 1 / 2 ^ 60"
    by (simp only: power_int_minus_divide power_int_numeral)
  finally show ?thesis .
qed

text \<open>
  The expression \<open>part / whole * 100\<close> on whole numbers: the result is finite and differs
  from the exact percentage by the two rounding errors only.
\<close>

lemma percentage_bound:
  assumes "c \<le> T" "0 < T" "T < 2 ^ 53"
  shows "\<exists>p. js_mul (js_div (Fin (of_nat c)) (Fin (of_nat T))) (Fin 100) = Fin p \<and> 0 \<le> p
    \<and> \<bar>p - 100 * of_nat c / of_nat T\<bar> \<le> 1 / 2 ^ 44"
proof -
  define r :: rat where "r = of_nat c / of_nat T"
  have T0: "(0::rat) < of_nat T" using assms by simp
  have r0: "0 \<le> r" and r1: "r \<le> 1"
    using assms by (simp_all add: r_def)
  have "\<bar>r\<bar> \<le> 2 ^ 64" using r0 r1 by simp
  then have d: "js_div (Fin (of_nat c)) (Fin (of_nat T)) = Fin (fl r)"
    using assms(2) by (simp add: r_def round64_small)
  show ?thesis
  proof (cases "c = 0")
    case True
    then have "fl r = 0" by (simp add: r_def)
    moreover have "round64 0 = Fin 0" using round64_small [of 0] by simp
    ultimately have "js_mul (js_div (Fin (of_nat c)) (Fin (of_nat T))) (Fin 100) = Fin 0"
      by (simp add: d del: js_div.simps)
    then show ?thesis using True by simp
  next
    case False
    have "(of_nat T :: rat) \<le> of_nat (2 ^ 53)"
      using assms(3) by (simp only: of_nat_le_iff)
    then have T53: "(of_nat T :: rat) \<le> 2 ^ 53" by simp
    have "1 \<le> (of_nat c :: rat)" using False by (simp add: Suc_le_eq)
    then have "1 / of_nat T \<le> r"
      unfolding r_def using T0 by (intro divide_right_mono) simp_all
    moreover have "1 / 2 ^ 53 \<le> 1 / (of_nat T :: rat)"
      using T53 T0 by (intro divide_left_mono) simp_all
    ultimately have rlow: "1 / 2 ^ 53 \<le> r" by linarith
    have "(2::rat) powi (- 1022) \<le> 1 / 2 ^ 53"
      using tiny_le by (simp del: power_int_numeral_neg_numeral)
    then have "2 powi (- 1022) \<le> \<bar>r\<bar>" using rlow by linarith
    define eps :: rat where "eps = 1 / 2 ^ 53"
    have eps: "0 < eps" "eps \<le> 1 / 2" "300 * eps \<le> 1 / 2 ^ 44" "1 / 2 ^ 60 \<le> eps / 2 * 100"
      by (simp_all add: eps_def)
    have rlow': "eps \<le> r" using rlow by (simp add: eps_def)
    from fl_error_rel [OF \<open>2 powi (- 1022) \<le> \<bar>r\<bar>\<close>]
    have e1: "\<bar>fl r - r\<bar> \<le> r * eps" using r0 by (simp add: eps_def)
    have "r * eps \<le> r * (1 / 2)" using eps(2) r0 by (intro mult_left_mono) simp_all
    with e1 have r'low: "r / 2 \<le> fl r" by linarith
    have "r * eps \<le> 1 * eps" using r1 eps(1) by (intro mult_right_mono) simp_all
    with e1 have e1': "\<bar>fl r - r\<bar> \<le> eps" by linarith
    then have r'up: "fl r \<le> 2" using r1 eps(2) by linarith
    define q where "q = fl r * 100"
    have q0: "0 \<le> q" and qup: "q \<le> 200" and qlow: "eps / 2 * 100 \<le> q"
      using r'low r0 r'up rlow' by (simp_all add: q_def)
    have "\<bar>q\<bar> \<le> 2 ^ 64" using q0 qup by simp
    then have m: "js_mul (js_div (Fin (of_nat c)) (Fin (of_nat T))) (Fin 100) = Fin (fl q)"
      by (simp add: d q_def round64_small del: js_div.simps)
    have "1 / 2 ^ 60 \<le> q" using qlow eps(4) by linarith
    then have "2 powi (- 1022) \<le> \<bar>q\<bar>" using tiny_le by linarith
    from fl_error_rel [OF this] have "\<bar>fl q - q\<bar> \<le> q * eps" using q0 by (simp add: eps_def)
    moreover have "q * eps \<le> 200 * eps" using qup eps(1) by (intro mult_right_mono) simp_all
    ultimately have e2: "\<bar>fl q - q\<bar> \<le> 200 * eps" by linarith
    have "q - 100 * r = 100 * (fl r - r)" by (simp add: q_def algebra_simps)
    then have "\<bar>q - 100 * r\<bar> = 100 * \<bar>fl r - r\<bar>" by (simp only: abs_mult abs_numeral)
    with e1' have e3: "\<bar>q - 100 * r\<bar> \<le> 100 * eps" by simp
    have "\<bar>fl q - 100 * r\<bar> \<le> 300 * eps" using e2 e3 by linarith
    also have "\<dots> \<le> 1 / 2 ^ 44" by (rule eps(3))
    finally have "\<bar>fl q - 100 * of_nat c / of_nat T\<bar> \<le> 1 / 2 ^ 44" by (simp add: r_def)
    moreover have "0 \<le> fl q" using q0 by (rule fl_nonneg)
    ultimately show ?thesis using m by blast
  qed
qed

lemma percentage_printed:
  assumes "c \<le> T" "0 < T" "T < 2 ^ 53" "0 < d"
  shows "\<exists>n. pct_value (toFixed (js_mul (js_div (Fin (of_nat c)) (Fin (of_nat T))) (Fin 100)) d @ ''%'')
        = Some (of_nat n / 10 ^ d)
    \<and> \<bar>(of_nat n :: rat) - 10 ^ d * (100 * of_nat c / of_nat T)\<bar> \<le> 1 / 2 + 10 ^ d / 2 ^ 44"
proof -
  from percentage_bound [OF assms(1-3)] obtain p where
    p: "js_mul (js_div (Fin (of_nat c)) (Fin (of_nat T))) (Fin 100) = Fin p" "0 \<le> p"
      "\<bar>p - 100 * of_nat c / of_nat T\<bar> \<le> 1 / 2 ^ 44"
    by blast
  define n where "n = round_half_up (p * 10 ^ d)"
  have v: "pct_value (toFixed (Fin p) d @ ''%'') = Some (of_nat n / 10 ^ d)"
    unfolding n_def by (rule pct_value_toFixed [OF p(2) assms(4)])
  have "0 \<le> p * 10 ^ d" using p(2) by simp
  then have e1: "\<bar>of_nat n - p * 10 ^ d\<bar> \<le> 1 / 2"
    unfolding n_def by (rule round_half_up_error)
  have "p * 10 ^ d - 10 ^ d * (100 * of_nat c / of_nat T)
      = 10 ^ d * (p - 100 * of_nat c / of_nat T)"
    by (simp add: algebra_simps)
  then have "\<bar>p * 10 ^ d - 10 ^ d * (100 * of_nat c / of_nat T)\<bar>
      = 10 ^ d * \<bar>p - 100 * of_nat c / of_nat T\<bar>"
    by (simp only: abs_mult) simp
  also have "\<dots> \<le> 10 ^ d * (1 / 2 ^ 44)"
    using p(3) by (intro mult_left_mono) simp_all
  finally have e2: "\<bar>p * 10 ^ d - 10 ^ d * (100 * of_nat c / of_nat T)\<bar> \<le> 10 ^ d / 2 ^ 44"
    by simp
  have "\<bar>(of_nat n :: rat) - 10 ^ d * (100 * of_nat c / of_nat T)\<bar> \<le> 1 / 2 + 10 ^ d / 2 ^ 44"
    using e1 e2 by linarith
  with v show ?thesis unfolding p(1) by blast
qed

lemma int_near_zero:
  assumes "\<bar>rat_of_int k\<bar> < 2"
  shows "\<bar>rat_of_int k\<bar> \<le> 1"
proof -
  from assms have "rat_of_int k < 2" "- 2 < rat_of_int k" by linarith+
  then have "k < 2" "- 2 < k" by simp_all
  then have "k \<le> 1" "- 1 \<le> k" by simp_all
  then have "rat_of_int k \<le> 1" "- 1 \<le> rat_of_int k" by simp_all
  then show ?thesis by linarith
qed

text \<open>Two parts of a whole: their printed percentages, with two decimals, add up to 100.\<close>

lemma two_percentages:
  assumes "a + b = T" "0 < T" "T < 2 ^ 53"
  shows "\<exists>u f.
      pct_value (toFixed (js_mul (js_div (Fin (of_nat a)) (Fin (of_nat T))) (Fin 100)) 2 @ ''%'') = Some u
    \<and> pct_value (toFixed (js_mul (js_div (Fin (of_nat b)) (Fin (of_nat T))) (Fin 100)) 2 @ ''%'') = Some f
    \<and> \<bar>u + f - 100\<bar> \<le> 1 / 100"
proof -
  have le: "a \<le> T" "b \<le> T" using assms(1) by simp_all
  from percentage_printed [OF le(1) assms(2,3), of 2] obtain n where
    n: "pct_value (toFixed (js_mul (js_div (Fin (of_nat a)) (Fin (of_nat T))) (Fin 100)) 2 @ ''%'')
          = Some (of_nat n / 10 ^ 2)"
       "\<bar>(of_nat n :: rat) - 10 ^ 2 * (100 * of_nat a / of_nat T)\<bar> \<le> 1 / 2 + 10 ^ 2 / 2 ^ 44"
    by auto
  from percentage_printed [OF le(2) assms(2,3), of 2] obtain m where
    m: "pct_value (toFixed (js_mul (js_div (Fin (of_nat b)) (Fin (of_nat T))) (Fin 100)) 2 @ ''%'')
          = Some (of_nat m / 10 ^ 2)"
       "\<bar>(of_nat m :: rat) - 10 ^ 2 * (100 * of_nat b / of_nat T)\<bar> \<le> 1 / 2 + 10 ^ 2 / 2 ^ 44"
    by auto
  define A :: rat where "A = 10 ^ 2 * (100 * of_nat a / of_nat T)"
  define B :: rat where "B = 10 ^ 2 * (100 * of_nat b / of_nat T)"
  have "(of_nat a + of_nat b :: rat) = of_nat T" using assms(1) by (simp flip: of_nat_add)
  then have AB: "A + B = 10000"
    using assms(2) by (simp add: A_def B_def field_simps)
  have small: "(10::rat) ^ 2 / 2 ^ 44 < 1 / 4" by simp
  have "\<bar>(of_nat n + of_nat m :: rat) - 10000\<bar> < 2"
    using n(2) m(2) AB small unfolding A_def [symmetric] B_def [symmetric] by linarith
  moreover have "(of_nat n + of_nat m :: rat) - 10000 = rat_of_int (int n + int m - 10000)"
    by simp
  ultimately have "\<bar>rat_of_int (int n + int m - 10000)\<bar> \<le> 1"
    by (simp only: int_near_zero)
  then have "\<bar>(of_nat n + of_nat m :: rat) - 10000\<bar> \<le> 1" by simp
  then have "\<bar>(of_nat n / 10 ^ 2 + of_nat m / 10 ^ 2 :: rat) - 100\<bar> \<le> 1 / 100"
    by (simp add: abs_le_iff field_simps)
  with n(1) m(1) show ?thesis by blast
qed

lemma pct_value_zero: "pct_value ''0%'' = Some 0"
  by (simp add: pct_value_def decimal_value_def unsigned_value_def all_digits_def is_digit_def
      dval_def digit_nat_def)

lemma getDiskInfo_unavailable:
  "getDiskInfo unavailable_disk =
     \<lparr>total = ''N/A'', free = ''N/A'', used = ''N/A'', usedPercentage = ''0%'',
      freePercentage = ''0%'', totalRaw = Fin 0, freeRaw = Fin 0, usedRaw = Fin 0\<rparr>"
  by (simp add: getDiskInfo_def unavailable_disk_def)

lemma usage_invariant_whole:
  assumes "F \<le> T" "0 < T" "T < 2 ^ 53"
    and raw: "totalRaw m = Fin (of_nat T)" "freeRaw m = Fin (of_nat F)"
      "usedRaw m = js_sub (Fin (of_nat T)) (Fin (of_nat F))"
    and pct: "usedPercentage m =
        toFixed (js_mul (js_div (js_sub (Fin (of_nat T)) (Fin (of_nat F))) (Fin (of_nat T))) (Fin 100)) 2 @ ''%''"
      "freePercentage m = toFixed (js_mul (js_div (Fin (of_nat F)) (Fin (of_nat T))) (Fin 100)) 2 @ ''%''"
  shows "usage_invariant m"
proof -
  have used: "js_sub (Fin (of_nat T)) (Fin (of_nat F)) = Fin (of_nat (T - F))"
    by (rule js_sub_nat [OF assms(1,3)])
  have "T - F + F < 2 ^ 53" using assms by simp
  from js_add_nat [OF this] have sum: "js_add (Fin (of_nat (T - F))) (Fin (of_nat F)) = Fin (of_nat T)"
    using assms(1) by (simp del: js_add.simps)
  have "T - F + F = T" using assms(1) by simp
  from two_percentages [OF this assms(2,3)] obtain u f where
    uf: "pct_value (toFixed (js_mul (js_div (Fin (of_nat (T - F))) (Fin (of_nat T))) (Fin 100)) 2 @ ''%'') = Some u"
      "pct_value (toFixed (js_mul (js_div (Fin (of_nat F)) (Fin (of_nat T))) (Fin 100)) 2 @ ''%'') = Some f"
      "\<bar>u + f - 100\<bar> \<le> 1 / 100"
    by blast
  show ?thesis
    unfolding usage_invariant_def raw pct used sum uf
    using uf(3) by simp
qed

text \<open>
  Claim C3, as the specification states it, fails on the degraded disk record: its two
  percentages are both \<open>0%\<close>.
\<close>

theorem degraded_disk_percentages_counterexample:
  "\<not> usage_invariant (getDiskInfo unavailable_disk)"
  by (simp add: usage_invariant_def getDiskInfo_unavailable pct_value_zero)

text \<open>
  Claim C3, amended. For the memory record and for the disk record of a successful check,
  on whole numbers with \<open>0 < total < 2 ^ 53\<close> and \<open>free \<le> total\<close>: used plus free is the total
  and the two printed percentages add up to 100 within 0.01. The degraded disk record has
  the raw values 0, 0 and 0, so that used plus free is the total, and both percentages
  \<open>0%\<close>.
\<close>

theorem usage_records_consistent:
  assumes "F \<le> T" "0 < T" "T < 2 ^ 53"
  shows "usage_invariant (getMemoryInfo (Fin (of_nat T)) (Fin (of_nat F)))
    \<and> (\<forall>check info. check ''/'' = Inr info \<and> info_total info = Fin (of_nat T)
          \<and> info_free info = Fin (of_nat F) \<longrightarrow> usage_invariant (getDiskInfo check))
    \<and> (\<forall>check err. check ''/'' = Inl err \<longrightarrow>
          getDiskInfo check =
            \<lparr>total = ''N/A'', free = ''N/A'', used = ''N/A'', usedPercentage = ''0%'',
             freePercentage = ''0%'', totalRaw = Fin 0, freeRaw = Fin 0, usedRaw = Fin 0\<rparr>
          \<and> js_add (usedRaw (getDiskInfo check)) (freeRaw (getDiskInfo check))
              = totalRaw (getDiskInfo check))"
proof (intro conjI allI impI)
  show "usage_invariant (getMemoryInfo (Fin (of_nat T)) (Fin (of_nat F)))"
    by (rule usage_invariant_whole [OF assms]) (simp_all add: getMemoryInfo_def Let_def
        del: js_sub.simps js_div.simps js_mul.simps toFixed.simps)
next
  fix check :: "string \<Rightarrow> js_error + diskusage" and info
  assume "check ''/'' = Inr info \<and> info_total info = Fin (of_nat T)
    \<and> info_free info = Fin (of_nat F)"
  then show "usage_invariant (getDiskInfo check)"
    by (intro usage_invariant_whole [OF assms]) (simp_all add: getDiskInfo_def Let_def
        del: js_sub.simps js_div.simps js_mul.simps toFixed.simps)
next
  fix check :: "string \<Rightarrow> js_error + diskusage" and err
  assume e: "check ''/'' = Inl err"
  then show "getDiskInfo check =
            \<lparr>total = ''N/A'', free = ''N/A'', used = ''N/A'', usedPercentage = ''0%'',
             freePercentage = ''0%'', totalRaw = Fin 0, freeRaw = Fin 0, usedRaw = Fin 0\<rparr>"
    by (simp add: getDiskInfo_def)
  have "round64 0 = Fin 0" using round64_small [of 0] by simp
  with e show "js_add (usedRaw (getDiskInfo check)) (freeRaw (getDiskInfo check))
              = totalRaw (getDiskInfo check)"
    by (simp add: getDiskInfo_def)
qed

theorem usage_records_consistent_witness:
  "(3000::nat) \<le> 8192 \<and> (0::nat) < 8192 \<and> (8192::nat) < 2 ^ 53
   \<and> usage_invariant (getMemoryInfo (Fin (of_nat (8192::nat))) (Fin (of_nat (3000::nat))))
   \<and> usage_invariant (getDiskInfo (healthy_disk 8192 3000))
   \<and> usedPercentage (getDiskInfo unavailable_disk) = ''0%''"
proof -
  have h: "(3000::nat) \<le> 8192" "(0::nat) < 8192" "(8192::nat) < 2 ^ 53" by simp_all
  note t = usage_records_consistent [OF h]
  have ok: "healthy_disk 8192 3000 ''/'' = Inr \<lparr>info_available = Fin (of_nat 3000),
      info_free = Fin (of_nat 3000), info_total = Fin (of_nat 8192)\<rparr>"
    by (simp add: healthy_disk_def)
  have bad: "unavailable_disk ''/'' = Inl ''ENOENT: no such file or directory''"
    by (simp add: unavailable_disk_def)
  have d: "usage_invariant (getDiskInfo (healthy_disk 8192 3000))"
    using t ok by (metis diskusage.select_convs(2,3))
  have u: "usedPercentage (getDiskInfo unavailable_disk) = ''0%''"
    using t bad by (metis usage.select_convs(4))
  from t h d u show ?thesis by blast
qed

lemma ilog2_eqI:
  assumes "2 powi e \<le> x" "x < 2 powi (e + 1)"
  shows "ilog2 x = e"
proof -
  have x0: "0 < x" using assms(1) zero_less_power_int [of "2::rat" e] by linarith
  have "e \<le> ilog2 x" using assms(1) by (rule ilog2_ge)
  moreover have "ilog2 x < e + 1" using x0 assms(2) by (rule ilog2_less)
  ultimately show ?thesis by simp
qed

text \<open>A rule to compute \<open>round64\<close> at a given positive number below \<open>2 ^ 61\<close>.\<close>

lemma round64_eqI:
  assumes "2 powi e \<le> x" "x < 2 powi (e + 1)" "- 1022 \<le> e" "e \<le> 60"
    and "\<bar>x * 2 powi (52 - e) - of_int n\<bar> < 1 / 2"
  shows "round64 x = Fin (of_int n * 2 powi (e - 52))"
proof -
  have x0: "0 < x" using assms(1) zero_less_power_int [of "2::rat" e] by linarith
  have il: "ilog2 \<bar>x\<bar> = e" using x0 assms(1,2) by (simp add: ilog2_eqI)
  have u: "unit_exp x = e - 52" using assms(3) by (simp add: unit_exp_def il)
  have "\<bar>x\<bar> / 2 powi (e - 52) = x * 2 powi (52 - e)"
    using x0 by (simp add: power_int_diff field_simps)
  then have "round_even (\<bar>x\<bar> / 2 powi (e - 52)) = n"
    using assms(5) by (simp add: round_even_eqI)
  then have f: "fl x = of_int n * 2 powi (e - 52)"
    using x0 by (simp add: fl_def u)
  have "(2::rat) powi (e + 1) \<le> 2 powi 64"
    using assms(4) by (intro power_int_increasing) simp_all
  then have "\<bar>x\<bar> \<le> 2 ^ 64" using x0 assms(2) by simp
  then show ?thesis by (simp only: round64_small f)
qed

lemma round64_zero: "round64 0 = Fin 0"
  using round64_small [of 0] by simp

lemma cpu_total:
  assumes t: "cpu_times c = \<lparr>times_user = Fin (of_nat u), times_nice = Fin (of_nat n),
      times_sys = Fin (of_nat s), times_idle = Fin (of_nat i), times_irq = Fin (of_nat q)\<rparr>"
    and b: "u + n + s + i + q < 2 ^ 53"
  shows "fold (\<lambda>time acc. js_add acc time) (times_values (cpu_times c)) (Fin 0)
    = Fin (of_nat (u + n + s + i + q))"
proof -
  have a1: "js_add (Fin 0) (Fin (of_nat u)) = Fin (of_nat u)"
    using js_add_nat [of 0 u] b by (simp del: js_add.simps)
  have a2: "js_add (Fin (of_nat u)) (Fin (of_nat n)) = Fin (of_nat (u + n))"
    using b by (intro js_add_nat) simp
  have a3: "js_add (Fin (of_nat (u + n))) (Fin (of_nat s)) = Fin (of_nat (u + n + s))"
    using b by (intro js_add_nat) simp
  have a4: "js_add (Fin (of_nat (u + n + s))) (Fin (of_nat i)) = Fin (of_nat (u + n + s + i))"
    using b by (intro js_add_nat) simp
  have a5: "js_add (Fin (of_nat (u + n + s + i))) (Fin (of_nat q)) = Fin (of_nat (u + n + s + i + q))"
    using b by (intro js_add_nat) simp
  show ?thesis
    unfolding t times_values_def
    by (simp only: fold_simps cpu_times.simps a1 a2 a3 a4 a5 id_apply)
qed

text \<open>Three parts of a whole: their printed percentages, with one decimal, add up to 100.\<close>

lemma three_percentages:
  assumes "a + b + c = T" "0 < T" "T < 2 ^ 53"
  shows "\<exists>u s i.
      pct_value (toFixed (js_mul (js_div (Fin (of_nat a)) (Fin (of_nat T))) (Fin 100)) 1 @ ''%'') = Some u
    \<and> pct_value (toFixed (js_mul (js_div (Fin (of_nat b)) (Fin (of_nat T))) (Fin 100)) 1 @ ''%'') = Some s
    \<and> pct_value (toFixed (js_mul (js_div (Fin (of_nat c)) (Fin (of_nat T))) (Fin 100)) 1 @ ''%'') = Some i
    \<and> \<bar>u + s + i - 100\<bar> \<le> 1 / 10"
proof -
  have le: "a \<le> T" "b \<le> T" "c \<le> T" using assms(1) by simp_all
  from percentage_printed [OF le(1) assms(2,3), of 1] obtain n where
    n: "pct_value (toFixed (js_mul (js_div (Fin (of_nat a)) (Fin (of_nat T))) (Fin 100)) 1 @ ''%'')
          = Some (of_nat n / 10 ^ 1)"
       "\<bar>(of_nat n :: rat) - 10 ^ 1 * (100 * of_nat a / of_nat T)\<bar> \<le> 1 / 2 + 10 ^ 1 / 2 ^ 44"
    by auto
  from percentage_printed [OF le(2) assms(2,3), of 1] obtain m where
    m: "pct_value (toFixed (js_mul (js_div (Fin (of_nat b)) (Fin (of_nat T))) (Fin 100)) 1 @ ''%'')
          = Some (of_nat m / 10 ^ 1)"
       "\<bar>(of_nat m :: rat) - 10 ^ 1 * (100 * of_nat b / of_nat T)\<bar> \<le> 1 / 2 + 10 ^ 1 / 2 ^ 44"
    by auto
  from percentage_printed [OF le(3) assms(2,3), of 1] obtain l where
    l: "pct_value (toFixed (js_mul (js_div (Fin (of_nat c)) (Fin (of_nat T))) (Fin 100)) 1 @ ''%'')
          = Some (of_nat l / 10 ^ 1)"
       "\<bar>(of_nat l :: rat) - 10 ^ 1 * (100 * of_nat c / of_nat T)\<bar> \<le> 1 / 2 + 10 ^ 1 / 2 ^ 44"
    by auto
  define A :: rat where "A = 10 ^ 1 * (100 * of_nat a / of_nat T)"
  define B :: rat where "B = 10 ^ 1 * (100 * of_nat b / of_nat T)"
  define C :: rat where "C = 10 ^ 1 * (100 * of_nat c / of_nat T)"
  have "(of_nat a + of_nat b + of_nat c :: rat) = of_nat T"
    using assms(1) by (simp flip: of_nat_add)
  then have ABC: "A + B + C = 1000"
    using assms(2) by (simp add: A_def B_def C_def field_simps)
  have small: "(10::rat) ^ 1 / 2 ^ 44 < 1 / 8" by simp
  have "\<bar>(of_nat n + of_nat m + of_nat l :: rat) - 1000\<bar> < 2"
    using n(2) m(2) l(2) ABC small
    unfolding A_def [symmetric] B_def [symmetric] C_def [symmetric] by linarith
  moreover have "(of_nat n + of_nat m + of_nat l :: rat) - 1000
      = rat_of_int (int n + int m + int l - 1000)"
    by simp
  ultimately have "\<bar>rat_of_int (int n + int m + int l - 1000)\<bar> \<le> 1"
    by (simp only: int_near_zero)
  then have "\<bar>(of_nat n + of_nat m + of_nat l :: rat) - 1000\<bar> \<le> 1" by simp
  then have "\<bar>(of_nat n / 10 ^ 1 + of_nat m / 10 ^ 1 + of_nat l / 10 ^ 1 :: rat) - 100\<bar> \<le> 1 / 10"
    by (simp add: abs_le_iff field_simps)
  with n(1) m(1) l(1) show ?thesis by blast
qed

lemma core_of_times:
  "times (core_of index c) =
     (let total = fold (\<lambda>time acc. js_add acc time) (times_values (cpu_times c)) (Fin 0)
      in \<lparr>user = toFixed (js_mul (js_div (times_user (cpu_times c)) total) (Fin 100)) 1 @ ''%'',
          system = toFixed (js_mul (js_div (times_sys (cpu_times c)) total) (Fin 100)) 1 @ ''%'',
          idle = toFixed (js_mul (js_div (times_idle (cpu_times c)) total) (Fin 100)) 1 @ ''%'',
          rawTotal = total,
          rawUser = times_user (cpu_times c),
          rawSystem = times_sys (cpu_times c),
          rawIdle = times_idle (cpu_times c)\<rparr>)"
  by (simp add: core_of_def Let_def)

lemma getCPUInfo_nth:
  "k < length cpus \<Longrightarrow> getCPUInfo cpus ! k = core_of k (cpus ! k)"
  by (simp add: getCPUInfo_def nth_enumerate_eq)

lemma toFixed_eval:
  assumes "0 \<le> x" "0 < f" "round_half_up (x * 10 ^ f) = n" "padded f n = p"
  shows "toFixed (Fin x) f = take (length p - f) p @ ''.'' @ drop (length p - f) p"
proof -
  have nx: "\<not> x < 0" and ax: "\<bar>x\<bar> = x" using assms(1) by simp_all
  have "toFixed (Fin x) f = fixed_digits f n"
    by (simp only: toFixed.simps nx ax if_False append_Nil assms(3))
  then show ?thesis
    by (simp only: fixed_digits_eq [OF assms(2)] assms(4))
qed

lemma toFixed_20: "toFixed (Fin 20) 1 = ''20.0''"
proof -
  have n: "round_half_up (20 * 10 ^ 1) = 200" by (rule round_half_up_eqI) simp_all
  have p: "padded 1 200 = ''200''"
    by (simp add: padded_def nat_digits_small nat_digits_step digit_char_def)
  from toFixed_eval [OF _ _ n p] show ?thesis by simp
qed

lemma toFixed_10: "toFixed (Fin 10) 1 = ''10.0''"
proof -
  have n: "round_half_up (10 * 10 ^ 1) = 100" by (rule round_half_up_eqI) simp_all
  have p: "padded 1 100 = ''100''"
    by (simp add: padded_def nat_digits_small nat_digits_step digit_char_def)
  from toFixed_eval [OF _ _ n p] show ?thesis by simp
qed

lemma toFixed_70: "toFixed (Fin 70) 1 = ''70.0''"
proof -
  have n: "round_half_up (70 * 10 ^ 1) = 700" by (rule round_half_up_eqI) simp_all
  have p: "padded 1 700 = ''700''"
    by (simp add: padded_def nat_digits_small nat_digits_step digit_char_def)
  from toFixed_eval [OF _ _ n p] show ?thesis by simp
qed

text \<open>The three percentages of the counter set 200, 100, 700 of 1000, as binary64 computes them.\<close>

lemma pct_200_of_1000: "js_mul (js_div (Fin 200) (Fin 1000)) (Fin 100) = Fin 20"
proof -
  have a: "round64 (200 / 1000) = Fin (of_int 7205759403792794 * 2 powi (- 3 - 52))"
    by (rule round64_eqI) simp_all
  have b: "round64 (of_int 7205759403792794 * 2 powi (- 3 - 52) * 100)
      = Fin (of_int 5629499534213120 * 2 powi (4 - 52))"
    by (rule round64_eqI) simp_all
  have c: "of_int 5629499534213120 * 2 powi (4 - 52) = (20::rat)" by simp
  have "js_div (Fin 200) (Fin 1000) = round64 (200 / 1000)" by simp
  then show ?thesis
    by (simp only: a js_mul.simps b c)
qed

lemma pct_100_of_1000: "js_mul (js_div (Fin 100) (Fin 1000)) (Fin 100) = Fin 10"
proof -
  have a: "round64 (100 / 1000) = Fin (of_int 7205759403792794 * 2 powi (- 4 - 52))"
    by (rule round64_eqI) simp_all
  have b: "round64 (of_int 7205759403792794 * 2 powi (- 4 - 52) * 100)
      = Fin (of_int 5629499534213120 * 2 powi (3 - 52))"
    by (rule round64_eqI) simp_all
  have c: "of_int 5629499534213120 * 2 powi (3 - 52) = (10::rat)" by simp
  have "js_div (Fin 100) (Fin 1000) = round64 (100 / 1000)" by simp
  then show ?thesis
    by (simp only: a js_mul.simps b c)
qed

lemma pct_700_of_1000: "js_mul (js_div (Fin 700) (Fin 1000)) (Fin 100) = Fin 70"
proof -
  have a: "round64 (700 / 1000) = Fin (of_int 6305039478318694 * 2 powi (- 1 - 52))"
    by (rule round64_eqI) simp_all
  have b: "round64 (of_int 6305039478318694 * 2 powi (- 1 - 52) * 100)
      = Fin (of_int 4925812092436480 * 2 powi (6 - 52))"
    by (rule round64_eqI) simp_all
  have c: "of_int 4925812092436480 * 2 powi (6 - 52) = (70::rat)" by simp
  have "js_div (Fin 700) (Fin 1000) = round64 (700 / 1000)" by simp
  then show ?thesis
    by (simp only: a js_mul.simps b c)
qed

lemma cpu_example:
  "times (hd (getCPUInfo [cpu_with 200 0 100 700 0])) =
     \<lparr>user = ''20.0%'', system = ''10.0%'', idle = ''70.0%'', rawTotal = Fin 1000,
      rawUser = Fin 200, rawSystem = Fin 100, rawIdle = Fin 700\<rparr>"
proof -
  define c where "c = cpu_with 200 0 100 700 0"
  have t: "cpu_times c = \<lparr>times_user = Fin (of_nat 200), times_nice = Fin (of_nat 0),
      times_sys = Fin (of_nat 100), times_idle = Fin (of_nat 700), times_irq = Fin (of_nat 0)\<rparr>"
    by (simp add: c_def cpu_with_def)
  have "fold (\<lambda>time acc. js_add acc time) (times_values (cpu_times c)) (Fin 0)
      = Fin (of_nat (200 + 0 + 100 + 700 + 0))"
    by (rule cpu_total [OF t]) simp
  then have total: "fold (\<lambda>time acc. js_add acc time) (times_values (cpu_times c)) (Fin 0) = Fin 1000"
    by simp
  have f: "times_user (cpu_times c) = Fin 200" "times_sys (cpu_times c) = Fin 100"
    "times_idle (cpu_times c) = Fin 700"
    by (simp_all add: t)
  have "getCPUInfo [c] = [core_of 0 c]" by (simp add: getCPUInfo_def)
  then have "times (hd (getCPUInfo [c])) = times (core_of 0 c)" by simp
  also have "\<dots> = \<lparr>user = ''20.0%'', system = ''10.0%'', idle = ''70.0%'', rawTotal = Fin 1000,
      rawUser = Fin 200, rawSystem = Fin 100, rawIdle = Fin 700\<rparr>"
    unfolding core_of_times total Let_def f pct_200_of_1000 pct_100_of_1000 pct_700_of_1000
      toFixed_20 toFixed_10 toFixed_70
    by simp
  finally show ?thesis unfolding c_def .
qed

lemma one_percentage:
  assumes "c \<le> T" "0 < T" "T < 2 ^ 53"
  shows "\<exists>p m. pct_value (toFixed (js_mul (js_div (Fin (of_nat c)) (Fin (of_nat T))) (Fin 100)) 1 @ ''%'')
        = Some p
    \<and> p = of_nat m / 10
    \<and> \<bar>p - 100 * of_nat c / of_nat T\<bar> \<le> 1 / 20 + 1 / 10 ^ 13"
proof -
  from percentage_printed [OF assms, of 1] obtain n where
    n: "pct_value (toFixed (js_mul (js_div (Fin (of_nat c)) (Fin (of_nat T))) (Fin 100)) 1 @ ''%'')
          = Some (of_nat n / 10 ^ 1)"
       "\<bar>(of_nat n :: rat) - 10 ^ 1 * (100 * of_nat c / of_nat T)\<bar> \<le> 1 / 2 + 10 ^ 1 / 2 ^ 44"
    by auto
  define E :: rat where "E = 100 * of_nat c / of_nat T"
  have small: "(10::rat) ^ 1 / 2 ^ 44 \<le> 10 * (1 / 10 ^ 13)" by simp
  have "\<bar>(of_nat n :: rat) - 10 * E\<bar> \<le> 1 / 2 + 10 * (1 / 10 ^ 13)"
    using n(2) small unfolding E_def by simp
  then have "\<bar>(of_nat n :: rat) / 10 - E\<bar> \<le> 1 / 20 + 1 / 10 ^ 13"
    by (simp add: abs_le_iff field_simps)
  then show ?thesis
    using n(1) unfolding E_def by (intro exI [of _ "of_nat n / 10"] exI [of _ n]) simp
qed

lemma pct_value_NaN: "pct_value ''NaN%'' = None"
  by (simp add: pct_value_def decimal_value_def unsigned_value_def all_digits_def is_digit_def)

lemma zero_core_times:
  "times (core_of k (cpu_with 0 0 0 0 0)) =
     \<lparr>user = ''NaN%'', system = ''NaN%'', idle = ''NaN%'', rawTotal = Fin 0,
      rawUser = Fin 0, rawSystem = Fin 0, rawIdle = Fin 0\<rparr>"
proof -
  define c where "c = cpu_with 0 0 0 0 0"
  have t: "cpu_times c = \<lparr>times_user = Fin (of_nat 0), times_nice = Fin (of_nat 0),
      times_sys = Fin (of_nat 0), times_idle = Fin (of_nat 0), times_irq = Fin (of_nat 0)\<rparr>"
    by (simp add: c_def cpu_with_def)
  have "fold (\<lambda>time acc. js_add acc time) (times_values (cpu_times c)) (Fin 0)
      = Fin (of_nat (0 + 0 + 0 + 0 + 0))"
    by (rule cpu_total [OF t]) simp
  then have total: "fold (\<lambda>time acc. js_add acc time) (times_values (cpu_times c)) (Fin 0) = Fin 0"
    by simp
  have f: "times_user (cpu_times c) = Fin 0" "times_sys (cpu_times c) = Fin 0"
    "times_idle (cpu_times c) = Fin 0"
    by (simp_all add: t)
  show ?thesis
    unfolding c_def [symmetric] core_of_times total Let_def f by simp
qed

text \<open>
  Claim C1, as the specification states it for every core, fails for a core whose counters
  are all zero: the sum of the counters is zero, the quotient is \<open>NaN\<close>, and the record
  reads \<open>NaN%\<close>, which is no percentage at all. Here the second of two cores is such a
  core.
\<close>

theorem zero_sum_percentage_counterexample:
  "\<not> percentage_of_counter
      (idle (times (getCPUInfo [cpu_with 200 0 100 700 0, cpu_with 0 0 0 0 0] ! 1))) 0 0"
proof -
  have "getCPUInfo [cpu_with 200 0 100 700 0, cpu_with 0 0 0 0 0] ! 1
      = core_of 1 ([cpu_with 200 0 100 700 0, cpu_with 0 0 0 0 0] ! 1)"
    by (rule getCPUInfo_nth) simp
  then have "idle (times (getCPUInfo [cpu_with 200 0 100 700 0, cpu_with 0 0 0 0 0] ! 1)) = ''NaN%''"
    by (simp add: zero_core_times)
  then show ?thesis
    by (simp add: percentage_of_counter_def pct_value_NaN)
qed

text \<open>
  Claim C1, amended. For every core whose counters are whole numbers with a positive sum
  \<open>T\<close> below \<open>2 ^ 53\<close>, each printed percentage is a number with one decimal within half a
  unit of the last place (and the error of two binary64 roundings, below \<open>10 ^ -13\<close>) of
  the counter divided by \<open>T\<close> times 100. For the counters user 200, sys 100, idle 700 and
  no other time, the record reads 20.0%, 10.0% and 70.0%.
\<close>

theorem cpu_state_percentages:
  assumes "k < length cpus"
    and "cpu_times (cpus ! k) = \<lparr>times_user = Fin (of_nat u), times_nice = Fin (of_nat n),
      times_sys = Fin (of_nat s), times_idle = Fin (of_nat i), times_irq = Fin (of_nat q)\<rparr>"
    and "0 < u + n + s + i + q" "u + n + s + i + q < 2 ^ 53"
  shows "(\<exists>pu ps pi.
        pct_value (user (times (getCPUInfo cpus ! k))) = Some pu
      \<and> pct_value (system (times (getCPUInfo cpus ! k))) = Some ps
      \<and> pct_value (idle (times (getCPUInfo cpus ! k))) = Some pi
      \<and> (\<exists>m::nat. pu = of_nat m / 10) \<and> (\<exists>m::nat. ps = of_nat m / 10)
      \<and> (\<exists>m::nat. pi = of_nat m / 10)
      \<and> \<bar>pu - 100 * of_nat u / of_nat (u + n + s + i + q)\<bar> \<le> 1 / 20 + 1 / 10 ^ 13
      \<and> \<bar>ps - 100 * of_nat s / of_nat (u + n + s + i + q)\<bar> \<le> 1 / 20 + 1 / 10 ^ 13
      \<and> \<bar>pi - 100 * of_nat i / of_nat (u + n + s + i + q)\<bar> \<le> 1 / 20 + 1 / 10 ^ 13)
    \<and> times (hd (getCPUInfo [cpu_with 200 0 100 700 0])) =
        \<lparr>user = ''20.0%'', system = ''10.0%'', idle = ''70.0%'', rawTotal = Fin 1000,
         rawUser = Fin 200, rawSystem = Fin 100, rawIdle = Fin 700\<rparr>"
proof -
  define T where "T = u + n + s + i + q"
  define c where "c = cpus ! k"
  have t: "cpu_times c = \<lparr>times_user = Fin (of_nat u), times_nice = Fin (of_nat n),
      times_sys = Fin (of_nat s), times_idle = Fin (of_nat i), times_irq = Fin (of_nat q)\<rparr>"
    using assms(2) by (simp add: c_def)
  have T: "0 < T" "T < 2 ^ 53" "u \<le> T" "s \<le> T" "i \<le> T"
    using assms(3,4) by (simp_all add: T_def)
  have total: "fold (\<lambda>time acc. js_add acc time) (times_values (cpu_times c)) (Fin 0) = Fin (of_nat T)"
    unfolding T_def by (rule cpu_total [OF t assms(4)])
  have f: "times_user (cpu_times c) = Fin (of_nat u)" "times_sys (cpu_times c) = Fin (of_nat s)"
    "times_idle (cpu_times c) = Fin (of_nat i)"
    by (simp_all add: t)
  have core: "times (getCPUInfo cpus ! k) =
      \<lparr>user = toFixed (js_mul (js_div (Fin (of_nat u)) (Fin (of_nat T))) (Fin 100)) 1 @ ''%'',
       system = toFixed (js_mul (js_div (Fin (of_nat s)) (Fin (of_nat T))) (Fin 100)) 1 @ ''%'',
       idle = toFixed (js_mul (js_div (Fin (of_nat i)) (Fin (of_nat T))) (Fin 100)) 1 @ ''%'',
       rawTotal = Fin (of_nat T), rawUser = Fin (of_nat u), rawSystem = Fin (of_nat s),
       rawIdle = Fin (of_nat i)\<rparr>"
    unfolding getCPUInfo_nth [OF assms(1)] c_def [symmetric] core_of_times total Let_def f ..
  from one_percentage [OF T(3) T(1,2)] obtain pu mu where
    pu: "pct_value (toFixed (js_mul (js_div (Fin (of_nat u)) (Fin (of_nat T))) (Fin 100)) 1 @ ''%'') = Some pu"
      "pu = of_nat mu / 10" "\<bar>pu - 100 * of_nat u / of_nat T\<bar> \<le> 1 / 20 + 1 / 10 ^ 13"
    by blast
  from one_percentage [OF T(4) T(1,2)] obtain ps ms where
    ps: "pct_value (toFixed (js_mul (js_div (Fin (of_nat s)) (Fin (of_nat T))) (Fin 100)) 1 @ ''%'') = Some ps"
      "ps = of_nat ms / 10" "\<bar>ps - 100 * of_nat s / of_nat T\<bar> \<le> 1 / 20 + 1 / 10 ^ 13"
    by blast
  from one_percentage [OF T(5) T(1,2)] obtain pi mi where
    pi: "pct_value (toFixed (js_mul (js_div (Fin (of_nat i)) (Fin (of_nat T))) (Fin 100)) 1 @ ''%'') = Some pi"
      "pi = of_nat mi / 10" "\<bar>pi - 100 * of_nat i / of_nat T\<bar> \<le> 1 / 20 + 1 / 10 ^ 13"
    by blast
  have "\<exists>pu ps pi.
        pct_value (user (times (getCPUInfo cpus ! k))) = Some pu
      \<and> pct_value (system (times (getCPUInfo cpus ! k))) = Some ps
      \<and> pct_value (idle (times (getCPUInfo cpus ! k))) = Some pi
      \<and> (\<exists>m::nat. pu = of_nat m / 10) \<and> (\<exists>m::nat. ps = of_nat m / 10)
      \<and> (\<exists>m::nat. pi = of_nat m / 10)
      \<and> \<bar>pu - 100 * of_nat u / of_nat T\<bar> \<le> 1 / 20 + 1 / 10 ^ 13
      \<and> \<bar>ps - 100 * of_nat s / of_nat T\<bar> \<le> 1 / 20 + 1 / 10 ^ 13
      \<and> \<bar>pi - 100 * of_nat i / of_nat T\<bar> \<le> 1 / 20 + 1 / 10 ^ 13"
    unfolding core core_times.simps using pu ps pi by blast
  then show ?thesis
    unfolding T_def using cpu_example by blast
qed

theorem cpu_state_percentages_witness:
  "(0::nat) < length [cpu_with 1 2 3 4 5]
   \<and> (0::nat) < 1 + 2 + 3 + 4 + 5 \<and> (1::nat) + 2 + 3 + 4 + 5 < 2 ^ 53
   \<and> (\<exists>pu. pct_value (user (times (getCPUInfo [cpu_with 1 2 3 4 5] ! 0))) = Some pu
        \<and> \<bar>pu - 100 * of_nat 1 / of_nat (1 + 2 + 3 + 4 + 5)\<bar> \<le> 1 / 20 + 1 / 10 ^ 13)"
proof -
  have h1: "(0::nat) < length [cpu_with 1 2 3 4 5]" by simp
  have h2: "cpu_times ([cpu_with 1 2 3 4 5] ! 0) = \<lparr>times_user = Fin (of_nat 1),
      times_nice = Fin (of_nat 2), times_sys = Fin (of_nat 3), times_idle = Fin (of_nat 4),
      times_irq = Fin (of_nat 5)\<rparr>"
    by (simp add: cpu_with_def)
  have h3: "(0::nat) < 1 + 2 + 3 + 4 + 5" and h4: "(1::nat) + 2 + 3 + 4 + 5 < 2 ^ 53" by simp_all
  from cpu_state_percentages [OF h1 h2 h3 h4] obtain pu where
    "pct_value (user (times (getCPUInfo [cpu_with 1 2 3 4 5] ! 0))) = Some pu"
    "\<bar>pu - 100 * of_nat 1 / of_nat (1 + 2 + 3 + 4 + 5)\<bar> \<le> 1 / 20 + 1 / 10 ^ 13"
    by blast
  with h1 h3 h4 show ?thesis by blast
qed

text \<open>
  Claim C7, as the specification states it, fails for a core whose counters are all zero:
  the sum of the counters is zero, each quotient is \<open>NaN\<close>, and the record reads \<open>NaN%\<close>
  three times.
\<close>

theorem idle_core_percentages_counterexample:
  "\<not> core_invariant (times (hd (getCPUInfo [cpu_with 0 0 0 0 0])))"
proof -
  define c where "c = cpu_with 0 0 0 0 0"
  have t: "cpu_times c = \<lparr>times_user = Fin (of_nat 0), times_nice = Fin (of_nat 0),
      times_sys = Fin (of_nat 0), times_idle = Fin (of_nat 0), times_irq = Fin (of_nat 0)\<rparr>"
    by (simp add: c_def cpu_with_def)
  have "fold (\<lambda>time acc. js_add acc time) (times_values (cpu_times c)) (Fin 0)
      = Fin (of_nat (0 + 0 + 0 + 0 + 0))"
    by (rule cpu_total [OF t]) simp
  then have total: "fold (\<lambda>time acc. js_add acc time) (times_values (cpu_times c)) (Fin 0) = Fin 0"
    by simp
  have f: "times_user (cpu_times c) = Fin 0" "times_sys (cpu_times c) = Fin 0"
    "times_idle (cpu_times c) = Fin 0"
    by (simp_all add: t)
  have "getCPUInfo [c] = [core_of 0 c]" by (simp add: getCPUInfo_def)
  then have "times (hd (getCPUInfo [c])) = times (core_of 0 c)" by simp
  also have "\<dots> = \<lparr>user = ''NaN%'', system = ''NaN%'', idle = ''NaN%'', rawTotal = Fin 0,
      rawUser = Fin 0, rawSystem = Fin 0, rawIdle = Fin 0\<rparr>"
    unfolding core_of_times total Let_def f by simp
  finally show ?thesis
    unfolding c_def by (simp add: core_invariant_def pct_value_NaN)
qed

text \<open>
  Claim C7, amended. For every core whose counters are whole numbers with no time in
  \<open>nice\<close> and \<open>irq\<close> and a positive sum below \<open>2 ^ 53\<close>, the three printed percentages add
  up to 100 within 0.1.
\<close>

theorem core_percentages_sum:
  assumes "k < length cpus"
    and "cpu_times (cpus ! k) = \<lparr>times_user = Fin (of_nat u), times_nice = Fin 0,
      times_sys = Fin (of_nat s), times_idle = Fin (of_nat i), times_irq = Fin 0\<rparr>"
    and "0 < u + s + i" "u + s + i < 2 ^ 53"
  shows "core_invariant (times (getCPUInfo cpus ! k))"
proof -
  define T where "T = u + s + i"
  define c where "c = cpus ! k"
  have t: "cpu_times c = \<lparr>times_user = Fin (of_nat u), times_nice = Fin (of_nat 0),
      times_sys = Fin (of_nat s), times_idle = Fin (of_nat i), times_irq = Fin (of_nat 0)\<rparr>"
    using assms(2) by (simp add: c_def)
  have T: "0 < T" "T < 2 ^ 53" "u + s + i = T"
    using assms(3,4) by (simp_all add: T_def)
  have "u + 0 + s + i + 0 < (2::nat) ^ 53" using assms(4) by simp
  from cpu_total [OF t this]
  have total: "fold (\<lambda>time acc. js_add acc time) (times_values (cpu_times c)) (Fin 0) = Fin (of_nat T)"
    by (simp add: T_def)
  have f: "times_user (cpu_times c) = Fin (of_nat u)" "times_sys (cpu_times c) = Fin (of_nat s)"
    "times_idle (cpu_times c) = Fin (of_nat i)"
    by (simp_all add: t)
  have core: "times (getCPUInfo cpus ! k) =
      \<lparr>user = toFixed (js_mul (js_div (Fin (of_nat u)) (Fin (of_nat T))) (Fin 100)) 1 @ ''%'',
       system = toFixed (js_mul (js_div (Fin (of_nat s)) (Fin (of_nat T))) (Fin 100)) 1 @ ''%'',
       idle = toFixed (js_mul (js_div (Fin (of_nat i)) (Fin (of_nat T))) (Fin 100)) 1 @ ''%'',
       rawTotal = Fin (of_nat T), rawUser = Fin (of_nat u), rawSystem = Fin (of_nat s),
       rawIdle = Fin (of_nat i)\<rparr>"
    unfolding getCPUInfo_nth [OF assms(1)] c_def [symmetric] core_of_times total Let_def f ..
  from three_percentages [OF T(3) T(1,2)] obtain pu ps pi where
    "pct_value (toFixed (js_mul (js_div (Fin (of_nat u)) (Fin (of_nat T))) (Fin 100)) 1 @ ''%'') = Some pu"
    "pct_value (toFixed (js_mul (js_div (Fin (of_nat s)) (Fin (of_nat T))) (Fin 100)) 1 @ ''%'') = Some ps"
    "pct_value (toFixed (js_mul (js_div (Fin (of_nat i)) (Fin (of_nat T))) (Fin 100)) 1 @ ''%'') = Some pi"
    "\<bar>pu + ps + pi - 100\<bar> \<le> 1 / 10"
    by blast
  then show ?thesis
    unfolding core core_invariant_def core_times.simps by simp
qed

theorem core_percentages_sum_witness:
  "(0::nat) < length [cpu_with 1 0 1 1 0] \<and> (0::nat) < 1 + 1 + 1 \<and> (1::nat) + 1 + 1 < 2 ^ 53
   \<and> core_invariant (times (getCPUInfo [cpu_with 1 0 1 1 0] ! 0))"
proof -
  have h1: "(0::nat) < length [cpu_with 1 0 1 1 0]" by simp
  have h2: "cpu_times ([cpu_with 1 0 1 1 0] ! 0) = \<lparr>times_user = Fin (of_nat 1),
      times_nice = Fin 0, times_sys = Fin (of_nat 1), times_idle = Fin (of_nat 1),
      times_irq = Fin 0\<rparr>"
    by (simp add: cpu_with_def)
  have h3: "(0::nat) < 1 + 1 + 1" and h4: "(1::nat) + 1 + 1 < 2 ^ 53" by simp_all
  from core_percentages_sum [OF h1 h2 h3 h4] h1 h3 h4 show ?thesis by blast
qed

section \<open>The snapshot when the disk is unavailable\<close>

text \<open>
  Claim C4. When the disk check fails, \<open>getSystemInfo\<close> still returns a snapshot: its disk
  record holds \<open>N/A\<close> for the formatted sizes, 0 for the raw values and \<open>0%\<close> for the
  percentages, and every other field is what it is for any other outcome of the disk
  check, computed from the host as usual.
\<close>

theorem snapshot_with_unavailable_disk:
  assumes "disk_check h ''/'' = Inl err"
  shows "disk (getSystemInfo h) =
        \<lparr>total = ''N/A'', free = ''N/A'', used = ''N/A'', usedPercentage = ''0%'',
         freePercentage = ''0%'', totalRaw = Fin 0, freeRaw = Fin 0, usedRaw = Fin 0\<rparr>
    \<and> os (getSystemInfo h) =
        \<lparr>platform = os_platform h, kernel_type = os_type h, release = os_release h,
         arch = os_arch h, hostname = os_hostname h\<rparr>
    \<and> cpu (getSystemInfo h) = getCPUInfo (os_cpus h)
    \<and> memory (getSystemInfo h) = getMemoryInfo (os_totalmem h) (os_freemem h)
    \<and> network (getSystemInfo h) =
        \<lparr>privateIP = getPrivateIP (os_networkInterfaces h), net_hostname = os_hostname h,
         net_interfaces = os_networkInterfaces h\<rparr>
    \<and> uptime (getSystemInfo h) = formatUptime (os_uptime h)
    \<and> (\<forall>check. getSystemInfo (h\<lparr>disk_check := check\<rparr>)
          = (getSystemInfo h)\<lparr>disk := getDiskInfo check\<rparr>)"
  using assms by (simp add: getSystemInfo_def getDiskInfo_def Let_def)

theorem snapshot_with_unavailable_disk_witness:
  "disk_check sample_host ''/'' = Inl ''ENOENT: no such file or directory''
   \<and> usedPercentage (disk (getSystemInfo sample_host)) = ''0%''
   \<and> total (disk (getSystemInfo sample_host)) = ''N/A''
   \<and> totalRaw (disk (getSystemInfo sample_host)) = Fin 0
   \<and> cpu (getSystemInfo sample_host) = getCPUInfo [cpu_with 200 0 100 700 0]"
proof -
  have h: "disk_check sample_host ''/'' = Inl ''ENOENT: no such file or directory''"
    by (simp add: sample_host_def unavailable_disk_def)
  have c: "os_cpus sample_host = [cpu_with 200 0 100 700 0]"
    by (simp add: sample_host_def)
  from snapshot_with_unavailable_disk [OF h] show ?thesis
    by (simp add: h c)
qed

section \<open>The control endpoints\<close>

text \<open>
  Claim C6, as the specification states it, fails: when the command fails, the response
  has the status 500 but its error text is a fixed sentence, in which the cause does not
  occur.
\<close>

theorem restart_failure_counterexample:
  "\<not> failure_is_reported ''sudo: a password is required'' (fst (restart_endpoint failing_exec))"
  by (simp add: failure_is_reported_def carries_cause_def restart_endpoint_def failing_exec_def
      sublist_Cons_right)

text \<open>
  Claim C6, amended. When the command succeeds, the response has the status 200 and an
  acknowledgment message. When it fails, the response has the status 500 and the fixed
  error text \<open>Failed to restart system\<close> or \<open>Failed to shutdown system\<close>; the cause is
  written to the console of the server and is no part of the response.
\<close>

theorem control_endpoint_responses:
  "(exec ''sudo shutdown -r now'' = None \<longrightarrow>
      restart_endpoint exec =
        (\<lparr>status = 200, body = [(''message'', ''System is restarting'')]\<rparr>, []))
   \<and> (exec ''sudo shutdown -r now'' = Some cause \<longrightarrow>
      restart_endpoint exec =
        (\<lparr>status = 500, body = [(''error'', ''Failed to restart system'')]\<rparr>,
         [''Restart error: '' @ cause]))
   \<and> (exec ''sudo shutdown -h now'' = None \<longrightarrow>
      shutdown_endpoint exec =
        (\<lparr>status = 200, body = [(''message'', ''System is shutting down'')]\<rparr>, []))
   \<and> (exec ''sudo shutdown -h now'' = Some cause \<longrightarrow>
      shutdown_endpoint exec =
        (\<lparr>status = 500, body = [(''error'', ''Failed to shutdown system'')]\<rparr>,
         [''Shutdown error: '' @ cause]))"
  by (simp add: restart_endpoint_def shutdown_endpoint_def)

theorem control_endpoint_responses_witness:
  "succeeding_exec ''sudo shutdown -r now'' = None
   \<and> status (fst (restart_endpoint succeeding_exec)) = 200
   \<and> failing_exec ''sudo shutdown -h now'' = Some ''sudo: a password is required''
   \<and> shutdown_endpoint failing_exec =
        (\<lparr>status = 500, body = [(''error'', ''Failed to shutdown system'')]\<rparr>,
         [''Shutdown error: sudo: a password is required''])"
proof -
  have s: "succeeding_exec ''sudo shutdown -r now'' = None"
    by (simp add: succeeding_exec_def)
  have f: "failing_exec ''sudo shutdown -h now'' = Some ''sudo: a password is required''"
    by (simp add: failing_exec_def)
  from control_endpoint_responses [of succeeding_exec "''''"] s
  have a: "status (fst (restart_endpoint succeeding_exec)) = 200" by simp
  from control_endpoint_responses [of failing_exec "''sudo: a password is required''"] f
  have b: "shutdown_endpoint failing_exec =
        (\<lparr>status = 500, body = [(''error'', ''Failed to shutdown system'')]\<rparr>,
         [''Shutdown error: sudo: a password is required''])" by simp
  from s f a b show ?thesis by blast
qed

section \<open>Observer sessions\<close>

text \<open>The deliveries of a session that was attached at \<open>start\<close> and has been open for \<open>d\<close> milliseconds.\<close>

lemma attached_session:
  assumes "readyState ws = OPEN"
  shows "readyState (run_ms H start d (on_connection H start ws)) = OPEN
    \<and> timer (run_ms H start d (on_connection H start ws))
        = Some (1000, start + 1000 * (d div 1000 + 1))
    \<and> sent (run_ms H start d (on_connection H start ws))
        = sent ws @ map (\<lambda>j. (start + 1000 * j, getSystemInfo (H (start + 1000 * j))))
            [0..<Suc (d div 1000)]"
proof (induction d)
  case 0
  show ?case using assms by (simp add: on_connection_def ws_send_def Let_def)
next
  case (Suc d)
  define s where "s = run_ms H start d (on_connection H start ws)"
  have s: "readyState s = OPEN" "timer s = Some (1000, start + 1000 * (d div 1000 + 1))"
    "sent s = sent ws @ map (\<lambda>j. (start + 1000 * j, getSystemInfo (H (start + 1000 * j))))
        [0..<Suc (d div 1000)]"
    unfolding s_def using Suc.IH by blast+
  have step: "run_ms H start (Suc d) (on_connection H start ws) = clock_tick H (start + Suc d) s"
    unfolding s_def by (rule run_ms.simps(2))
  show ?case
  proof (cases "Suc d mod 1000 = 0")
    case True
    then have q: "Suc d div 1000 = d div 1000 + 1"
      by (simp add: div_Suc)
    have "Suc d div 1000 * 1000 + Suc d mod 1000 = Suc d"
      by (rule div_mult_mod_eq)
    then have due: "1000 * (d div 1000 + 1) = Suc d"
      unfolding q True by simp
    define t where "t = start + 1000 * (d div 1000 + 1)"
    have tn: "start + Suc d = t"
      using due by (simp add: t_def)
    have "clock_tick H t s = (interval_callback H t s)\<lparr>timer := Some (1000, t + 1000)\<rparr>"
      by (simp add: clock_tick_def s(2) t_def)
    moreover have "interval_callback H t s = s\<lparr>sent := sent s @ [(t, getSystemInfo (H t))]\<rparr>"
      by (simp add: interval_callback_def ws_send_def s(1) Let_def)
    ultimately have c: "clock_tick H t s =
        s\<lparr>sent := sent s @ [(t, getSystemInfo (H t))], timer := Some (1000, t + 1000)\<rparr>"
      by simp
    show ?thesis
      unfolding step tn c q using s(1) s(3) by (simp add: t_def)
  next
    case False
    then have q: "Suc d div 1000 = d div 1000"
      by (simp add: div_Suc)
    have due: "1000 * (d div 1000 + 1) \<noteq> Suc d"
    proof
      assume eq: "1000 * (d div 1000 + 1) = Suc d"
      have "(1000 * (d div 1000 + 1)) mod 1000 = 0" by (rule mod_mult_self1_is_0)
      then have "Suc d mod 1000 = 0" unfolding eq .
      with False show False by contradiction
    qed
    have "clock_tick H (start + Suc d) s = s"
      using due by (simp add: clock_tick_def s(2))
    then show ?thesis
      unfolding step using s q by simp
  qed
qed

section \<open>Whole quotients\<close>

















section \<open>The deliveries of a session\<close>

text \<open>
  A session is quiet when its socket is not open or its timer is cleared. A quiet session
  stays quiet and gets no snapshot, whatever happens.
\<close>

lemma clock_tick_quiet:
  assumes "readyState ws \<noteq> OPEN \<or> timer ws = None"
  shows "(readyState (clock_tick H now ws) \<noteq> OPEN \<or> timer (clock_tick H now ws) = None)
    \<and> sent (clock_tick H now ws) = sent ws"
proof (cases "timer ws")
  case None
  then show ?thesis using assms by (simp add: clock_tick_def)
next
  case (Some a)
  obtain period due where a: "a = (period, due)" by (cases a)
  from Some assms have closed: "readyState ws \<noteq> OPEN" by simp
  then have "interval_callback H now ws = ws" by (simp add: interval_callback_def)
  then show ?thesis using closed Some a by (simp add: clock_tick_def)
qed

lemma run_ms_quiet:
  assumes "readyState ws \<noteq> OPEN \<or> timer ws = None"
  shows "(readyState (run_ms H start d ws) \<noteq> OPEN \<or> timer (run_ms H start d ws) = None)
    \<and> sent (run_ms H start d ws) = sent ws"
proof (induction d)
  case 0
  show ?case using assms by simp
next
  case (Suc d)
  from clock_tick_quiet [of "run_ms H start d ws" H "start + Suc d"] Suc
  show ?case by simp
qed

lemma step_quiet:
  assumes "readyState ws \<noteq> OPEN \<or> timer ws = None"
  shows "(readyState (snd (step H ev (now, ws))) \<noteq> OPEN \<or> timer (snd (step H ev (now, ws))) = None)
    \<and> sent (snd (step H ev (now, ws))) = sent ws"
proof (cases ev)
  case (Elapse d)
  then show ?thesis using run_ms_quiet [OF assms, of H now d] by simp
next
  case SocketClosing
  then show ?thesis by simp
next
  case PeerClose
  then show ?thesis by (simp add: on_close_def)
next
  case SocketError
  then show ?thesis by (simp add: on_error_def)
qed

lemma quiet_session:
  assumes "readyState ws \<noteq> OPEN \<or> timer ws = None"
  shows "sent (snd (fold (step H) evs (now, ws))) = sent ws"
  using assms
proof (induction evs arbitrary: now ws)
  case Nil
  show ?case by simp
next
  case (Cons ev evs)
  obtain now' ws' where st: "step H ev (now, ws) = (now', ws')" by (cases "step H ev (now, ws)")
  from step_quiet [OF Cons.prems, of H ev now] st
  have "readyState ws' \<noteq> OPEN \<or> timer ws' = None" "sent ws' = sent ws" by simp_all
  with Cons.IH [of ws' now'] st show ?case by simp
qed

lemma step_ends_deliveries:
  assumes "is_detach ev \<or> ev = SocketClosing"
  shows "(readyState (snd (step H ev (now, ws))) \<noteq> OPEN \<or> timer (snd (step H ev (now, ws))) = None)
    \<and> sent (snd (step H ev (now, ws))) = sent ws"
  using assms by (cases ev) (simp_all add: is_detach_def on_close_def on_error_def)

text \<open>
  Claim C5, as the specification states it for every session, fails for a session whose
  peer has gone while the handler was waiting for the first snapshot: the first send is
  not guarded, it fails inside \<open>try\<close>, and nothing is delivered at attach.
\<close>

theorem gone_session_counterexample:
  "\<not> delivers_at_attach steady_host 5 gone_session"
  by (simp add: delivers_at_attach_def on_connection_def ws_send_def gone_session_def Let_def)

text \<open>
  Claim C5, amended. A session whose socket is open when the handler sends the first
  snapshot, at the time \<open>start\<close>, gets that snapshot at once, before the timer is even
  created, and its timer has the period 1000. While the socket stays open, after \<open>d\<close>
  milliseconds the snapshots delivered are exactly those of the times \<open>start\<close>,
  \<open>start + 1000\<close>, and so on up to \<open>start + 1000 * (d div 1000)\<close>, each taken from the host
  at that time. Once the session is detached, by the close of the peer or by an error, or
  its socket has started to close, nothing that happens delivers another snapshot.
\<close>

theorem session_deliveries:
  assumes "readyState ws = OPEN"
  shows "delivers_at_attach H start ws
    \<and> timer (on_connection H start ws) = Some (1000, start + 1000)
    \<and> sent (run_ms H start d (on_connection H start ws))
        = sent ws @ map (\<lambda>j. (start + 1000 * j, getSystemInfo (H (start + 1000 * j))))
            [0..<Suc (d div 1000)]
    \<and> (\<forall>ev evs. is_detach ev \<or> ev = SocketClosing \<longrightarrow>
          sent (snd (fold (step H) evs
            (step H ev (start + d, run_ms H start d (on_connection H start ws)))))
          = sent (run_ms H start d (on_connection H start ws)))"
proof (intro conjI allI impI)
  show "delivers_at_attach H start ws"
    using assms by (simp add: delivers_at_attach_def on_connection_def ws_send_def Let_def)
  show "timer (on_connection H start ws) = Some (1000, start + 1000)"
    by (simp add: on_connection_def Let_def)
  show "sent (run_ms H start d (on_connection H start ws))
        = sent ws @ map (\<lambda>j. (start + 1000 * j, getSystemInfo (H (start + 1000 * j))))
            [0..<Suc (d div 1000)]"
    using attached_session [OF assms] by blast
next
  fix ev evs
  assume ev: "is_detach ev \<or> ev = SocketClosing"
  define s where "s = run_ms H start d (on_connection H start ws)"
  obtain now' ws' where st: "step H ev (start + d, s) = (now', ws')"
    by (cases "step H ev (start + d, s)")
  from step_ends_deliveries [OF ev, of H "start + d" s] st
  have q: "readyState ws' \<noteq> OPEN \<or> timer ws' = None" "sent ws' = sent s" by simp_all
  from quiet_session [OF q(1), of H evs now'] q(2) st
  show "sent (snd (fold (step H) evs (step H ev (start + d, s)))) = sent s"
    by simp
qed

theorem session_deliveries_witness:
  "readyState fresh_session = OPEN \<and> (is_detach PeerClose \<or> PeerClose = SocketClosing)
   \<and> (is_detach SocketClosing \<or> SocketClosing = SocketClosing)
   \<and> map fst (sent (run_ms steady_host 5 2500 (on_connection steady_host 5 fresh_session)))
       = [5, 1005, 2005]
   \<and> map fst (sent (snd (fold (step steady_host) [Elapse 5000, SocketError, Elapse 1000]
        (step steady_host PeerClose
          (5 + 2500, run_ms steady_host 5 2500 (on_connection steady_host 5 fresh_session))))))
       = [5, 1005, 2005]
   \<and> map fst (sent (snd (fold (step steady_host) [Elapse 5000, PeerClose]
        (step steady_host SocketClosing
          (5 + 2500, run_ms steady_host 5 2500 (on_connection steady_host 5 fresh_session))))))
       = [5, 1005, 2005]"
proof -
  have o: "readyState fresh_session = OPEN" by (simp add: fresh_session_def)
  have e: "is_detach PeerClose \<or> PeerClose = SocketClosing" by (simp add: is_detach_def)
  have c: "is_detach SocketClosing \<or> SocketClosing = SocketClosing" by simp
  note t = session_deliveries [OF o, of steady_host 5 2500]
  have u: "[0..<Suc (2500 div 1000)] = [0, 1, 2]"
    by (simp add: upt_rec)
  have a: "map fst (sent (run_ms steady_host 5 2500 (on_connection steady_host 5 fresh_session)))
      = [5, 1005, 2005]"
    using t u by (simp add: fresh_session_def)
  have b1: "sent (snd (fold (step steady_host) [Elapse 5000, SocketError, Elapse 1000]
        (step steady_host PeerClose
          (5 + 2500, run_ms steady_host 5 2500 (on_connection steady_host 5 fresh_session)))))
      = sent (run_ms steady_host 5 2500 (on_connection steady_host 5 fresh_session))"
    using t e by blast
  have b2: "sent (snd (fold (step steady_host) [Elapse 5000, PeerClose]
        (step steady_host SocketClosing
          (5 + 2500, run_ms steady_host 5 2500 (on_connection steady_host 5 fresh_session)))))
      = sent (run_ms steady_host 5 2500 (on_connection steady_host 5 fresh_session))"
    using t c by blast
  from o e c a show ?thesis by (simp only: b1 b2)
qed

end
